theory Spec2Isabelle
  imports Main "HOL-Library.Word" "HOL-Library.Log_Nat" "HOL-Library.Sublist"
begin

section \<open>JavaScript strings\<close>

text \<open>
  A JavaScript string is a sequence of 16-bit code units. Literals of the source are
  ASCII and are written through \<open>ascii\<close>; a character test of the source compares
  code units.
\<close>

type_synonym jschar = "16 word"
type_synonym jsstring = "jschar list"

definition ascii :: "string \<Rightarrow> jsstring" where
  "ascii s = map of_char s"

definition DOT :: jschar where "DOT = 0x2E"
definition NL :: jschar where "NL = 0x0A"
definition SPACE :: jschar where "SPACE = 0x20"
definition BOM :: jschar where "BOM = 0xFEFF"

text \<open>
  \<open>String.prototype.trim\<close> strips WhiteSpace and LineTerminator code points from both
  ends: TAB, LF, VT, FF, CR, SPACE, NBSP, U+1680, U+2000 to U+200A, U+2028, U+2029,
  U+202F, U+205F, U+3000 and the byte-order mark U+FEFF.
\<close>

definition is_js_space :: "jschar \<Rightarrow> bool" where
  "is_js_space c \<longleftrightarrow>
     (0x09 \<le> c \<and> c \<le> 0x0D) \<or> c = 0x20 \<or> c = 0xA0 \<or> c = 0x1680 \<or>
     (0x2000 \<le> c \<and> c \<le> 0x200A) \<or> c = 0x2028 \<or> c = 0x2029 \<or> c = 0x202F \<or>
     c = 0x205F \<or> c = 0x3000 \<or> c = 0xFEFF"

definition trim :: "jsstring \<Rightarrow> jsstring" where
  "trim s = rev (dropWhile is_js_space (rev (dropWhile is_js_space s)))"

text \<open>\<open>s.split('\n')\<close>: the pieces between line feeds; never the empty list.\<close>

fun split_acc :: "jschar \<Rightarrow> jsstring \<Rightarrow> jsstring \<Rightarrow> jsstring list" where
  "split_acc sep cur [] = [cur]"
| "split_acc sep cur (c # cs) =
     (if c = sep then cur # split_acc sep [] cs else split_acc sep (cur @ [c]) cs)"

definition split :: "jsstring \<Rightarrow> jschar \<Rightarrow> jsstring list" where
  "split s sep = split_acc sep [] s"

text \<open>\<open>xs.join(sep)\<close>: the separator stands between elements only.\<close>

fun join :: "jsstring list \<Rightarrow> jsstring \<Rightarrow> jsstring" where
  "join [] sep = []"
| "join [x] sep = x"
| "join (x # y # ys) sep = x @ sep @ join (y # ys) sep"

text \<open>
  \<open>s.lastIndexOf(c)\<close> for a one-unit search string: the largest index holding \<open>c\<close>,
  or -1. The scan keeps the index reached and the best match so far.
\<close>

fun lastIndexOf_from :: "jschar \<Rightarrow> jsstring \<Rightarrow> int \<Rightarrow> int \<Rightarrow> int" where
  "lastIndexOf_from c [] i best = best"
| "lastIndexOf_from c (x # xs) i best =
     lastIndexOf_from c xs (i + 1) (if x = c then i else best)"

definition lastIndexOf :: "jsstring \<Rightarrow> jschar \<Rightarrow> int" where
  "lastIndexOf s c = lastIndexOf_from c s 0 (- 1)"

text \<open>\<open>s.substring(a, b)\<close> and \<open>s.substring(a)\<close> for \<open>0 \<le> a \<le> b\<close>.\<close>

definition substring :: "jsstring \<Rightarrow> int \<Rightarrow> int \<Rightarrow> jsstring" where
  "substring s a b = take (nat b - nat a) (drop (nat a) s)"

definition substring_from :: "jsstring \<Rightarrow> int \<Rightarrow> jsstring" where
  "substring_from s a = drop (nat a) s"

text \<open>
  \<open>toLowerCase\<close> on the ASCII letters only. The extension literals the source compares
  the result with are ASCII and hold neither \<open>i\<close> nor \<open>k\<close>, the only ASCII letters that
  a code unit outside ASCII lowers to, so the branch and the MIME type are decided by
  this part of the case mapping. A cased letter outside ASCII in an extension is left as
  it is here, where the program lowers it in the download name.
\<close>

definition lower_unit :: "jschar \<Rightarrow> jschar" where
  "lower_unit c = (if 0x41 \<le> c \<and> c \<le> 0x5A then c + 0x20 else c)"

definition toLowerCase :: "jsstring \<Rightarrow> jsstring" where
  "toLowerCase s = map lower_unit s"

definition startsWith :: "jsstring \<Rightarrow> jsstring \<Rightarrow> bool" where
  "startsWith s p \<longleftrightarrow> take (length p) s = p"

section \<open>File names\<close>

record parsed_name =
  name :: jsstring
  extension :: jsstring

definition parseFileName :: "jsstring \<Rightarrow> parsed_name" where
  "parseFileName fileName =
     (let lastDotIndex = lastIndexOf fileName DOT in
      if lastDotIndex = - 1 then \<lparr>name = fileName, extension = ascii ''.txt''\<rparr>
      else \<lparr>name = substring fileName 0 lastDotIndex,
            extension = substring_from fileName lastDotIndex\<rparr>)"

section \<open>JavaScript numbers\<close>

text \<open>
  A JavaScript number is an IEEE 754 double. The values computed here are quotients and
  products of string lengths and page numbers, all within the normal range, so a double
  is modelled as the rational it denotes and every arithmetic operation as the exact
  operation followed by rounding to the nearest double (53 significant bits, ties to
  even). \<open>ilog2 x\<close> is the exponent \<open>e\<close> with \<open>2^e \<le> x < 2^(e+1)\<close> for positive \<open>x\<close>.
\<close>

definition pow2 :: "int \<Rightarrow> rat" where
  "pow2 e = (if 0 \<le> e then 2 ^ nat e else 1 / 2 ^ nat (- e))"

definition ilog2 :: "rat \<Rightarrow> int" where
  "ilog2 x = (let (a, b) = quotient_of x; d = bitlen a - bitlen b
              in if pow2 d \<le> x then d else d - 1)"

definition round_ties_even :: "rat \<Rightarrow> int" where
  "round_ties_even x = (let f = \<lfloor>x\<rfloor>; r = x - of_int f in
     if r < 1 / 2 then f else if 1 / 2 < r then f + 1 else if even f then f else f + 1)"

definition to_double :: "rat \<Rightarrow> rat" where
  "to_double x = (if x = 0 then 0 else
     let u = pow2 (ilog2 \<bar>x\<bar> - 52) in of_int (round_ties_even (x / u)) * u)"

definition js_mul :: "rat \<Rightarrow> rat \<Rightarrow> rat" where
  "js_mul a b = to_double (a * b)"

definition js_div :: "rat \<Rightarrow> rat \<Rightarrow> rat" where
  "js_div a b = to_double (a / b)"

text \<open>\<open>Math.round\<close> rounds to the nearest integer, a tie towards plus infinity.\<close>

definition math_round :: "rat \<Rightarrow> int" where
  "math_round x = \<lfloor>x + 1 / 2\<rfloor>"

section \<open>Text extraction from a paginated document\<close>

text \<open>
  The document the PDF library hands back: either loading fails, or there is one entry
  per page, holding the \<open>str\<close> of each text item of the page, or nothing when reading
  the page fails. Every failure is caught and thrown again as the one parse error. The
  progress callback is optional; the values it is called with are collected in order.
\<close>

datatype extraction_error = PdfParseError

type_synonym pdf_page = "jsstring list option"

datatype pdf_file = Unreadable | Pdf "pdf_page list"

record extraction =
  reported :: "int list"
  outcome :: "extraction_error + jsstring"

definition progress_pct :: "nat \<Rightarrow> nat \<Rightarrow> int" where
  "progress_pct i totalPages = math_round (js_mul (js_div (of_nat i) (of_nat totalPages)) 100)"

fun read_pages :: "bool \<Rightarrow> nat \<Rightarrow> nat \<Rightarrow> pdf_page list \<Rightarrow> jsstring \<Rightarrow> int list \<Rightarrow> extraction" where
  "read_pages onProgress totalPages i [] fullText calls = \<lparr>reported = calls, outcome = Inr fullText\<rparr>"
| "read_pages onProgress totalPages i (None # ps) fullText calls =
     \<lparr>reported = calls, outcome = Inl PdfParseError\<rparr>"
| "read_pages onProgress totalPages i (Some items # ps) fullText calls =
     read_pages onProgress totalPages (i + 1) ps
       (fullText @ join items [SPACE] @ [NL, NL])
       (if onProgress then calls @ [progress_pct i totalPages] else calls)"

definition readPdfAsText :: "pdf_file \<Rightarrow> bool \<Rightarrow> extraction" where
  "readPdfAsText file onProgress =
     (case file of
        Unreadable \<Rightarrow> \<lparr>reported = [], outcome = Inl PdfParseError\<rparr>
      | Pdf pages \<Rightarrow> read_pages onProgress (length pages) 1 pages [] [])"

section \<open>Streaming translation\<close>

datatype Language = ENGLISH | PERSIAN | AUTO

definition language_name :: "Language \<Rightarrow> jsstring" where
  "language_name l = (case l of ENGLISH \<Rightarrow> ascii ''English''
     | PERSIAN \<Rightarrow> ascii ''Persian (Farsi)'' | AUTO \<Rightarrow> ascii ''Auto Detect'')"

text \<open>
  The provider answers a prompt with a stream of chunks, each with an optional text, that
  either completes or throws (a call that throws before its first chunk is a stream of
  no chunks that throws). Model name, system instruction and temperature are the same in
  every call.
\<close>

datatype stream_end = Completed | Threw

type_synonym provider = "jsstring \<Rightarrow> jsstring option list \<times> stream_end"

definition prompt :: "jsstring \<Rightarrow> Language \<Rightarrow> Language \<Rightarrow> jsstring" where
\<open>prompt txt sourceLang targetLang =
    (let sourcePrompt = (if sourceLang = AUTO then ascii ''the detected source language''
                         else language_name sourceLang);
         targetPrompt = language_name targetLang
     in ascii ''Translate the following text from '' @
     sourcePrompt @
     ascii '' to '' @
     targetPrompt @
     ascii ''.\<newline>'' @
     ascii ''    \<newline>'' @
     ascii ''    Text to translate:\<newline>'' @
     ascii ''    """\<newline>'' @
     ascii ''    '' @
     txt @
     ascii ''\<newline>'' @
     ascii ''    """\<newline>'' @
     ascii ''    '')\<close>

text \<open>The generator yields the text of every chunk that has a non-empty one.\<close>

fun yielded :: "jsstring option list \<Rightarrow> jsstring list" where
  "yielded [] = []"
| "yielded (None # cs) = yielded cs"
| "yielded (Some t # cs) = (if t \<noteq> [] then t # yielded cs else yielded cs)"

definition translateTextStream ::
  "provider \<Rightarrow> jsstring \<Rightarrow> Language \<Rightarrow> Language \<Rightarrow> jsstring list \<times> stream_end" where
  "translateTextStream ai txt sourceLang targetLang =
     (if trim txt = [] then ([], Completed)
      else let (chunks, fin) = ai (prompt txt sourceLang targetLang)
           in (yielded chunks, fin))"

section \<open>The translation session\<close>

datatype LoadingState = idle | reading | translating | success | error

record app =
  sourceLang :: Language
  targetLang :: Language
  inputText :: jsstring
  outputText :: jsstring
  status :: LoadingState
  progress :: rat

text \<open>
  One iteration of the consuming loop queues two state updates: an updater that appends
  the chunk to the output, then the progress, capped at 95. Every update is one entry of
  the trace, in the order React applies them. The variable \<open>currentLength\<close> starts at 0
  and is assigned only inside the updater, which React runs when it renders, after the
  iteration has read the variable: an iteration computes its progress from the length
  the updater of the iteration before left there, so the progress lags one chunk behind
  the output.
\<close>

definition append_chunk :: "app \<Rightarrow> jsstring \<Rightarrow> app" where
  "append_chunk s chunk = s\<lparr>outputText := outputText s @ chunk\<rparr>"

definition report_progress :: "rat \<Rightarrow> nat \<Rightarrow> app \<Rightarrow> app" where
  "report_progress estimatedLength currentLength s =
     (let rawProgress = js_mul (js_div (of_nat currentLength) estimatedLength) 100
      in s\<lparr>progress := min rawProgress 95\<rparr>)"

fun consume :: "rat \<Rightarrow> nat \<Rightarrow> app \<Rightarrow> jsstring list \<Rightarrow> app list" where
  "consume estimatedLength currentLength s [] = []"
| "consume estimatedLength currentLength s (chunk # rest) =
     append_chunk s chunk #
     report_progress estimatedLength currentLength (append_chunk s chunk) #
     consume estimatedLength (length (outputText (append_chunk s chunk)))
       (report_progress estimatedLength currentLength (append_chunk s chunk)) rest"

definition estimatedLength_of :: "jsstring \<Rightarrow> rat" where
  "estimatedLength_of txt = js_mul (of_nat (length txt)) (to_double (12 / 10))"

text \<open>
  The states while the stream is open: the state after the three resets (status, output,
  progress), then the states of the loop.
\<close>

definition session_start :: "app \<Rightarrow> app" where
  "session_start s = s\<lparr>status := translating, outputText := [], progress := 0\<rparr>"

definition streaming_states :: "provider \<Rightarrow> app \<Rightarrow> app list" where
  "streaming_states ai s =
     session_start s #
     consume (estimatedLength_of (inputText s)) 0 (session_start s)
       (fst (translateTextStream ai (inputText s) (sourceLang s) (targetLang s)))"

definition closing_states :: "stream_end \<Rightarrow> app \<Rightarrow> app list" where
  "closing_states fin s =
     (case fin of
        Completed \<Rightarrow> [s\<lparr>progress := 100\<rparr>, s\<lparr>progress := 100, status := success\<rparr>]
      | Threw \<Rightarrow> [s\<lparr>status := error\<rparr>])"

definition handleTranslate_trace :: "provider \<Rightarrow> app \<Rightarrow> app list" where
  "handleTranslate_trace ai s =
     (if trim (inputText s) = [] then []
      else [s\<lparr>status := translating\<rparr>, s\<lparr>status := translating, outputText := []\<rparr>] @
           streaming_states ai s @
           closing_states (snd (translateTextStream ai (inputText s) (sourceLang s) (targetLang s)))
             (last (streaming_states ai s)))"

definition handleTranslate :: "provider \<Rightarrow> app \<Rightarrow> app" where
  "handleTranslate ai s = last (s # handleTranslate_trace ai s)"

section \<open>Export\<close>

definition EXPORT_EXTENSIONS :: "jsstring list" where
  "EXPORT_EXTENSIONS = map ascii
     [''.txt'', ''.md'', ''.json'', ''.html'', ''.csv'', ''.xml'', ''.srt'', ''.vtt'', ''.pdf'', ''.docx'']"

record blob =
  parts :: "jsstring list"
  blob_type :: jsstring

text \<open>
  What a call of \<open>downloadFile\<close> does: it alerts that the popup was blocked, writes a page
  to the print window, or clicks a link that downloads a blob under a file name.
\<close>

datatype export_result = PopupBlocked | Printed jsstring | Downloaded blob jsstring

text \<open>
  The bytes of a blob. The constructor converts every string part to Unicode scalar
  values: a high surrogate followed by a low surrogate is one supplementary code point,
  any other surrogate code unit becomes U+FFFD, every other code unit is its own value.
  It stores the UTF-8 encoding of the scalar values, part after part. Bytes and code
  points are natural numbers.
\<close>

definition is_high :: "jschar \<Rightarrow> bool" where
  "is_high c \<longleftrightarrow> 0xD800 \<le> c \<and> c \<le> 0xDBFF"

definition is_low :: "jschar \<Rightarrow> bool" where
  "is_low c \<longleftrightarrow> 0xDC00 \<le> c \<and> c \<le> 0xDFFF"

fun scalar_values :: "jsstring \<Rightarrow> nat list" where
  "scalar_values [] = []"
| "scalar_values [c] = [if is_high c \<or> is_low c then 0xFFFD else unat c]"
| "scalar_values (c # d # cs) =
     (if is_high c \<and> is_low d
      then (0x10000 + (unat c - 0xD800) * 0x400 + (unat d - 0xDC00)) # scalar_values cs
      else (if is_high c \<or> is_low c then 0xFFFD else unat c) # scalar_values (d # cs))"

definition utf8_encode :: "nat \<Rightarrow> nat list" where
  "utf8_encode cp =
     (if cp < 0x80 then [cp]
      else if cp < 0x800 then [0xC0 + cp div 0x40, 0x80 + cp mod 0x40]
      else if cp < 0x10000 then
        [0xE0 + cp div 0x1000, 0x80 + cp div 0x40 mod 0x40, 0x80 + cp mod 0x40]
      else [0xF0 + cp div 0x40000, 0x80 + cp div 0x1000 mod 0x40,
            0x80 + cp div 0x40 mod 0x40, 0x80 + cp mod 0x40])"

definition blob_bytes :: "blob \<Rightarrow> nat list" where
  "blob_bytes b = concat (map (\<lambda>part. concat (map utf8_encode (scalar_values part))) (parts b))"

text \<open>
  Reading the payload back: the strict UTF-8 decoder (no result for a sequence that is
  not well-formed UTF-8: a stray or missing continuation byte, an overlong form, a
  surrogate, a value above U+10FFFF), then the code units of the scalar values. No
  byte-order mark is stripped. \<open>toWellFormed\<close> and \<open>isWellFormed\<close> are the string methods
  of these names: the string with every unpaired surrogate replaced by U+FFFD, and the
  test that there is none.
\<close>

definition is_cont :: "nat \<Rightarrow> bool" where
  "is_cont b \<longleftrightarrow> 0x80 \<le> b \<and> b < 0xC0"

fun utf8_decode :: "nat list \<Rightarrow> nat list option" where
  "utf8_decode [] = Some []"
| "utf8_decode (b0 # bs) =
     (if b0 < 0x80 then map_option (Cons b0) (utf8_decode bs)
      else if 0xC2 \<le> b0 \<and> b0 < 0xE0 then
        (case bs of
           b1 # r \<Rightarrow>
             if is_cont b1
             then map_option (Cons ((b0 - 0xC0) * 0x40 + (b1 - 0x80))) (utf8_decode r)
             else None
         | _ \<Rightarrow> None)
      else if 0xE0 \<le> b0 \<and> b0 < 0xF0 then
        (case bs of
           b1 # b2 # r \<Rightarrow>
             (let cp = (b0 - 0xE0) * 0x1000 + (b1 - 0x80) * 0x40 + (b2 - 0x80) in
              if is_cont b1 \<and> is_cont b2 \<and> 0x800 \<le> cp \<and> \<not> (0xD800 \<le> cp \<and> cp < 0xE000)
              then map_option (Cons cp) (utf8_decode r)
              else None)
         | _ \<Rightarrow> None)
      else if 0xF0 \<le> b0 \<and> b0 < 0xF5 then
        (case bs of
           b1 # b2 # b3 # r \<Rightarrow>
             (let cp = (b0 - 0xF0) * 0x40000 + (b1 - 0x80) * 0x1000 + (b2 - 0x80) * 0x40 +
                       (b3 - 0x80) in
              if is_cont b1 \<and> is_cont b2 \<and> is_cont b3 \<and> 0x10000 \<le> cp \<and> cp < 0x110000
              then map_option (Cons cp) (utf8_decode r)
              else None)
         | _ \<Rightarrow> None)
      else None)"

definition utf16_units :: "nat \<Rightarrow> jsstring" where
  "utf16_units cp =
     (if cp < 0x10000 then [of_nat cp]
      else [of_nat (0xD800 + (cp - 0x10000) div 0x400), of_nat (0xDC00 + (cp - 0x10000) mod 0x400)])"

definition decode_text :: "nat list \<Rightarrow> jsstring option" where
  "decode_text bytes = map_option (\<lambda>cps. concat (map utf16_units cps)) (utf8_decode bytes)"

definition toWellFormed :: "jsstring \<Rightarrow> jsstring" where
  "toWellFormed s = concat (map utf16_units (scalar_values s))"

fun isWellFormed :: "jsstring \<Rightarrow> bool" where
  "isWellFormed [] = True"
| "isWellFormed [c] = (\<not> is_high c \<and> \<not> is_low c)"
| "isWellFormed (c # d # cs) =
     (if is_high c then is_low d \<and> isWellFormed cs
      else \<not> is_low c \<and> isWellFormed (d # cs))"

definition safeExtension_of :: "jsstring \<Rightarrow> jsstring" where
  "safeExtension_of ext =
     toLowerCase (if startsWith ext [DOT] then ext else [DOT] @ ext)"

definition isRtl_of :: "jsstring \<Rightarrow> bool" where
  "isRtl_of content = list_ex (\<lambda>c. 0x0600 \<le> c \<and> c \<le> 0x06FF) content"

definition pdf_line :: "jsstring \<Rightarrow> jsstring" where
  "pdf_line line = (if trim line \<noteq> [] then ascii ''<p>'' @ line @ ascii ''</p>'' else ascii ''<br>'')"

definition formattedContent_of :: "jsstring \<Rightarrow> jsstring" where
  "formattedContent_of content = join (map pdf_line (split content NL)) []"

definition htmlContent_of :: "jsstring \<Rightarrow> jsstring \<Rightarrow> jsstring \<Rightarrow> jsstring \<Rightarrow> jsstring \<Rightarrow> jsstring" where
\<open>htmlContent_of dir filename font align formattedContent =
     ascii ''\<newline>'' @
     ascii ''      <!DOCTYPE html>\<newline>'' @
     ascii ''      <html lang="en" dir="'' @
     dir @
     ascii ''">\<newline>'' @
     ascii ''      <head>\<newline>'' @
     ascii ''        <meta charset="UTF-8">\<newline>'' @
     ascii ''        <title>'' @
     filename @
     ascii ''</title>\<newline>'' @
     ascii ''        <link href="https://fonts.googleapis.com/css2?family=Inter:wght@400;600&family=Vazirmatn:wght@400;700&display=swap" rel="stylesheet">\<newline>'' @
     ascii ''        <style>\<newline>'' @
     ascii ''          body {\<newline>'' @
     ascii ''            font-family: '' @
     font @
     ascii '';\<newline>'' @
     ascii ''            padding: 40px;\<newline>'' @
     ascii ''            line-height: 1.8;\<newline>'' @
     ascii ''            color: #1a1a1a;\<newline>'' @
     ascii ''            max-width: 800px;\<newline>'' @
     ascii ''            margin: 0 auto;\<newline>'' @
     ascii ''            text-align: '' @
     align @
     ascii '';\<newline>'' @
     ascii ''          }\<newline>'' @
     ascii ''          p { margin-bottom: 10px; text-align: justify; }\<newline>'' @
     ascii ''          @media print {\<newline>'' @
     ascii ''            body { padding: 0; margin: 2cm; }\<newline>'' @
     ascii ''            @page { margin: 2cm; }\<newline>'' @
     ascii ''          }\<newline>'' @
     ascii ''        </style>\<newline>'' @
     ascii ''      </head>\<newline>'' @
     ascii ''      <body>\<newline>'' @
     ascii ''        '' @
     formattedContent @
     ascii ''\<newline>'' @
     ascii ''        <script>\<newline>'' @
     ascii ''          // Automatically trigger print dialog when loaded\<newline>'' @
     ascii ''          window.onload = function() {\<newline>'' @
     ascii ''            setTimeout(function() {\<newline>'' @
     ascii ''              window.print();\<newline>'' @
     ascii ''              // Optional: window.close(); // Don\'t close immediately so user can see it\<newline>'' @
     ascii ''            }, 500);\<newline>'' @
     ascii ''          };\<newline>'' @
     ascii ''        </script>\<newline>'' @
     ascii ''      </body>\<newline>'' @
     ascii ''      </html>\<newline>'' @
     ascii ''    ''\<close>

definition docx_header :: "jsstring \<Rightarrow> jsstring" where
\<open>docx_header persianFont =
     ascii ''\<newline>'' @
     ascii ''      <html xmlns:o=\'urn:schemas-microsoft-com:office:office\' \<newline>'' @
     ascii ''            xmlns:w=\'urn:schemas-microsoft-com:office:word\' \<newline>'' @
     ascii ''            xmlns=\'http://www.w3.org/TR/REC-html40\'>\<newline>'' @
     ascii ''      <head>\<newline>'' @
     ascii ''        <meta charset=\'utf-8\'>\<newline>'' @
     ascii ''        <style>\<newline>'' @
     ascii ''          body { \<newline>'' @
     ascii ''            font-family: \'Arial\', sans-serif; \<newline>'' @
     ascii ''          }\<newline>'' @
     ascii ''          /* Specific style for Persian text in Word */\<newline>'' @
     ascii ''          p.MsoNormal {\<newline>'' @
     ascii ''            mso-style-parent: "";\<newline>'' @
     ascii ''            margin-bottom: .0001pt;\<newline>'' @
     ascii ''            font-family: "Arial", "sans-serif";\<newline>'' @
     ascii ''            '' @
     persianFont @
     ascii ''\<newline>'' @
     ascii ''          }\<newline>'' @
     ascii ''        </style>\<newline>'' @
     ascii ''      </head>\<newline>'' @
     ascii ''      <body lang=EN-US style=\'tab-interval:.5in\'>\<newline>'' @
     ascii ''    ''\<close>

definition persian_font_rule :: jsstring where
\<open>persian_font_rule =
     ascii ''font-family: "Vazirmatn", "Arial", sans-serif; mso-bidi-font-family: "Arial";''\<close>

definition docx_line :: "jsstring \<Rightarrow> jsstring \<Rightarrow> jsstring \<Rightarrow> jsstring" where
\<open>docx_line textAlign dir line =
     (if trim line = [] then ascii ''<p>&nbsp;</p>''
      else ascii ''<p align="'' @ textAlign @ ascii ''" dir="'' @ dir @
           ascii ''" style="text-align:'' @ textAlign @ ascii ''; direction:'' @ dir @
           ascii ''; unicode-bidi:embed">'' @ line @ ascii ''</p>'')\<close>

definition docx_paragraphs :: "jsstring \<Rightarrow> jsstring list" where
  "docx_paragraphs content =
     (let isRtl = isRtl_of content;
          dir = (if isRtl then ascii ''rtl'' else ascii ''ltr'');
          textAlign = (if isRtl then ascii ''right'' else ascii ''left'')
      in map (docx_line textAlign dir) (split content NL))"

definition sourceHTML_of :: "jsstring \<Rightarrow> jsstring" where
\<open>sourceHTML_of content =
     docx_header (if isRtl_of content then persian_font_rule else []) @
     join (docx_paragraphs content) [] @ ascii ''</body></html>''\<close>

definition mimeType_of :: "jsstring \<Rightarrow> jsstring" where
  "mimeType_of safeExtension =
     (if safeExtension = ascii ''.json'' then ascii ''application/json''
      else if safeExtension = ascii ''.html'' then ascii ''text/html''
      else if safeExtension = ascii ''.csv'' then ascii ''text/csv''
      else if safeExtension = ascii ''.xml'' then ascii ''text/xml''
      else if safeExtension = ascii ''.md'' then ascii ''text/markdown''
      else ascii ''text/plain'')"

text \<open>
  \<open>popup\<close> tells whether the host opens the print window. The three strategies in the
  order of the source: print for \<open>.pdf\<close>, the word-processor page for \<open>.docx\<close> and
  \<open>.doc\<close>, the content itself after a byte-order mark for everything else.
\<close>

definition downloadFile :: "bool \<Rightarrow> jsstring \<Rightarrow> jsstring \<Rightarrow> jsstring \<Rightarrow> export_result" where
\<open>downloadFile popup content filename ext =
     (let safeExtension = safeExtension_of ext in
      if safeExtension = ascii ''.pdf'' then
        (if \<not> popup then PopupBlocked
         else let isRtl = isRtl_of content;
                  dir = (if isRtl then ascii ''rtl'' else ascii ''ltr'');
                  align = (if isRtl then ascii ''right'' else ascii ''left'');
                  font = (if isRtl then ascii ''\'Vazirmatn\', sans-serif''
                          else ascii ''\'Inter\', sans-serif'')
              in Printed (htmlContent_of dir filename font align (formattedContent_of content)))
      else if safeExtension = ascii ''.docx'' \<or> safeExtension = ascii ''.doc'' then
        Downloaded
          \<lparr>parts = [[BOM], sourceHTML_of content],
           blob_type = ascii ''application/vnd.openxmlformats-officedocument.wordprocessingml.document''\<rparr>
          (filename @ safeExtension)
      else
        Downloaded
          \<lparr>parts = [[BOM], content],
           blob_type = mimeType_of safeExtension @ ascii '';charset=utf-8''\<rparr>
          (filename @ safeExtension))\<close>

section \<open>Invariants of the consuming loop\<close>

text \<open>
  Relations for the proofs. \<open>scalar_ok cp\<close>: \<open>cp\<close> is a Unicode scalar value. \<open>grows a b\<close>: from state \<open>a\<close> to state
  \<open>b\<close> the output was only extended and the progress did not fall. \<open>capped est s\<close>: the
  progress of \<open>s\<close> is at most what the loop would report for the output of \<open>s\<close>.
\<close>

definition grows :: "app \<Rightarrow> app \<Rightarrow> bool" where
  "grows a b \<longleftrightarrow> prefix (outputText a) (outputText b) \<and> progress a \<le> progress b"

definition scalar_ok :: "nat \<Rightarrow> bool" where
  "scalar_ok cp \<longleftrightarrow> cp < 0x110000 \<and> \<not> (0xD800 \<le> cp \<and> cp < 0xE000)"

definition capped :: "rat \<Rightarrow> app \<Rightarrow> bool" where
  "capped est s \<longleftrightarrow>
     progress s \<le> min (js_mul (js_div (of_nat (length (outputText s))) est) 100) 95"

section \<open>Properties of file-name parsing\<close>

lemma lastIndexOf_from_absent:
  "c \<notin> set xs \<Longrightarrow> lastIndexOf_from c xs i best = best"
  by (induction xs arbitrary: i best) auto

lemma lastIndexOf_from_last:
  "c \<notin> set ys \<Longrightarrow> lastIndexOf_from c (xs @ c # ys) i best = i + int (length xs)"
  by (induction xs arbitrary: i best) (auto simp: lastIndexOf_from_absent)

lemma lastIndexOf_absent: "c \<notin> set s \<Longrightarrow> lastIndexOf s c = - 1"
  by (simp add: lastIndexOf_def lastIndexOf_from_absent)

lemma lastIndexOf_last:
  "c \<notin> set ys \<Longrightarrow> lastIndexOf (xs @ c # ys) c = int (length xs)"
  by (simp add: lastIndexOf_def lastIndexOf_from_last)

lemma parseFileName_no_dot:
  "DOT \<notin> set f \<Longrightarrow> parseFileName f = \<lparr>name = f, extension = ascii ''.txt''\<rparr>"
  by (simp add: parseFileName_def lastIndexOf_absent)

lemma parseFileName_last_dot:
  "DOT \<notin> set ext \<Longrightarrow>
   parseFileName (base @ DOT # ext) = \<lparr>name = base, extension = DOT # ext\<rparr>"
  by (simp add: parseFileName_def lastIndexOf_last substring_def substring_from_def)

text \<open>
  C7. For every file name, \<open>parseFileName\<close> returns as base everything before the last
  dot and as extension the last dot with what follows it; a name with no dot is its own
  base and gets the extension \<open>.txt\<close>. So \<open>report.v2.json\<close> parses to \<open>report.v2\<close> and
  \<open>.json\<close>, and \<open>README\<close> to \<open>README\<close> and \<open>.txt\<close>.
\<close>

theorem parseFileName_spec:
  "(DOT \<notin> set f \<longrightarrow> parseFileName f = \<lparr>name = f, extension = ascii ''.txt''\<rparr>) \<and>
   (DOT \<notin> set ext \<longrightarrow>
      parseFileName (base @ DOT # ext) = \<lparr>name = base, extension = DOT # ext\<rparr>) \<and>
   parseFileName (ascii ''report.v2.json'') =
     \<lparr>name = ascii ''report.v2'', extension = ascii ''.json''\<rparr> \<and>
   parseFileName (ascii ''README'') = \<lparr>name = ascii ''README'', extension = ascii ''.txt''\<rparr>"
proof -
  have json: "ascii ''report.v2.json'' = ascii ''report.v2'' @ DOT # ascii ''json''"
    by (simp add: ascii_def DOT_def)
  have "DOT \<notin> set (ascii ''json'')"
    by (simp add: ascii_def DOT_def)
  then have a: "parseFileName (ascii ''report.v2.json'') =
      \<lparr>name = ascii ''report.v2'', extension = ascii ''.json''\<rparr>"
    unfolding json by (simp add: parseFileName_last_dot) (simp add: ascii_def DOT_def)
  have "DOT \<notin> set (ascii ''README'')"
    by (simp add: ascii_def DOT_def)
  then have b: "parseFileName (ascii ''README'') =
      \<lparr>name = ascii ''README'', extension = ascii ''.txt''\<rparr>"
    by (rule parseFileName_no_dot)
  show ?thesis
    using a b by (simp add: parseFileName_no_dot parseFileName_last_dot)
qed

theorem parseFileName_spec_witness:
  "DOT \<notin> set (ascii ''Makefile'') \<and>
   parseFileName (ascii ''Makefile'') = \<lparr>name = ascii ''Makefile'', extension = ascii ''.txt''\<rparr> \<and>
   DOT \<notin> set (ascii ''gz'') \<and>
   parseFileName (ascii ''a.tar'' @ DOT # ascii ''gz'') =
     \<lparr>name = ascii ''a.tar'', extension = DOT # ascii ''gz''\<rparr>"
proof -
  have h1: "DOT \<notin> set (ascii ''Makefile'')" by (simp add: ascii_def DOT_def)
  have h2: "DOT \<notin> set (ascii ''gz'')" by (simp add: ascii_def DOT_def)
  show ?thesis
    using parseFileName_spec [of "ascii ''Makefile''" "ascii ''gz''" "ascii ''a.tar''"] h1 h2
    by simp
qed

section \<open>Rounding to a double is monotone\<close>

lemma pow2_powi: "pow2 e = 2 powi e"
  by (simp add: pow2_def power_int_def power_one_over)

lemma pow2_pos: "0 < pow2 e"
  by (simp add: pow2_powi)

lemma pow2_add: "pow2 (a + b) = pow2 a * pow2 b"
  by (simp add: pow2_powi power_int_add)

lemma pow2_mono: "a \<le> b \<Longrightarrow> pow2 a \<le> pow2 b"
  by (simp add: pow2_powi power_int_increasing)

lemma pow2_less_imp: "pow2 a < pow2 b \<Longrightarrow> a < b"
  using pow2_mono [of b a] by (cases "a < b") auto

lemma round_ties_even_of_int: "round_ties_even (of_int k) = k"
  by (simp add: round_ties_even_def)

lemma round_ties_even_mono: "x \<le> y \<Longrightarrow> round_ties_even x \<le> round_ties_even y"
proof -
  assume xy: "x \<le> y"
  have fl: "\<lfloor>x\<rfloor> \<le> \<lfloor>y\<rfloor>" using xy by (rule floor_mono)
  have lo: "\<And>z. \<lfloor>z\<rfloor> \<le> round_ties_even z" by (simp add: round_ties_even_def Let_def)
  have hi: "\<And>z. round_ties_even z \<le> \<lfloor>z\<rfloor> + 1" by (simp add: round_ties_even_def Let_def)
  show ?thesis
  proof (cases "\<lfloor>x\<rfloor> = \<lfloor>y\<rfloor>")
    case True
    then show ?thesis using xy by (auto simp: round_ties_even_def Let_def)
  next
    case False
    then have "\<lfloor>x\<rfloor> + 1 \<le> \<lfloor>y\<rfloor>" using fl by simp
    then show ?thesis using lo [of y] hi [of x] by linarith
  qed
qed

lemma ilog2_bounds:
  assumes "0 < x"
  shows "pow2 (ilog2 x) \<le> x \<and> x < pow2 (ilog2 x + 1)"
proof -
  obtain a b where q: "quotient_of x = (a, b)" by (cases "quotient_of x")
  have b: "0 < b" using q by (rule quotient_of_denom_pos)
  have x: "x = of_int a / of_int b" using q by (rule quotient_of_div)
  have a: "0 < a" using assms b unfolding x by (simp add: zero_less_divide_iff)
  define la lb where "la = bitlen a" and "lb = bitlen b"
  have la: "2 ^ nat (la - 1) \<le> a" "a < 2 ^ nat la" using bitlen_bounds [OF a] by (simp_all add: la_def)
  have lb: "2 ^ nat (lb - 1) \<le> b" "b < 2 ^ nat lb" using bitlen_bounds [OF b] by (simp_all add: lb_def)
  have la1: "1 \<le> la" using a bitlen_eq_zero_iff [of a] bitlen_nonneg [of a] unfolding la_def by linarith
  have lb1: "1 \<le> lb" using b bitlen_eq_zero_iff [of b] bitlen_nonneg [of b] unfolding lb_def by linarith
  have ra: "pow2 (la - 1) \<le> of_int a" "of_int a < pow2 la"
  proof -
    have "(of_int (2 ^ nat (la - 1)) :: rat) \<le> of_int a" using la(1) by (simp only: of_int_le_iff)
    then show "pow2 (la - 1) \<le> of_int a" using la1 by (simp add: pow2_def)
    have "(of_int a :: rat) < of_int (2 ^ nat la)" using la(2) by (simp only: of_int_less_iff)
    then show "of_int a < pow2 la" using la1 by (simp add: pow2_def)
  qed
  have rb: "pow2 (lb - 1) \<le> of_int b" "of_int b < pow2 lb"
  proof -
    have "(of_int (2 ^ nat (lb - 1)) :: rat) \<le> of_int b" using lb(1) by (simp only: of_int_le_iff)
    then show "pow2 (lb - 1) \<le> of_int b" using lb1 by (simp add: pow2_def)
    have "(of_int b :: rat) < of_int (2 ^ nat lb)" using lb(2) by (simp only: of_int_less_iff)
    then show "of_int b < pow2 lb" using lb1 by (simp add: pow2_def)
  qed
  have up: "x < pow2 (la - lb + 1)"
  proof -
    have "of_int a / of_int b < pow2 la / pow2 (lb - 1)"
      using a ra(2) rb(1) pow2_pos [of "lb - 1"] by (intro frac_less) simp_all
    also have "pow2 la = pow2 (la - lb + 1) * pow2 (lb - 1)"
      by (simp add: pow2_add [symmetric])
    finally show ?thesis using pow2_pos [of "lb - 1"] by (simp add: x)
  qed
  have dn: "pow2 (la - lb - 1) \<le> x"
  proof -
    have "pow2 (la - 1) / pow2 lb \<le> of_int a / of_int b"
      using b ra(1) rb(2) pow2_pos [of "la - 1"] by (intro frac_le) simp_all
    moreover have "pow2 (la - 1) = pow2 (la - lb - 1) * pow2 lb"
      by (simp add: pow2_add [symmetric])
    ultimately show ?thesis using pow2_pos [of lb] by (simp add: x)
  qed
  show ?thesis
    using up dn q by (auto simp: ilog2_def Let_def la_def lb_def)
qed

lemma to_double_bounds:
  assumes "0 < x"
  shows "pow2 (ilog2 x) \<le> to_double x \<and> to_double x \<le> pow2 (ilog2 x + 1)"
proof -
  define u where "u = pow2 (ilog2 x - 52)"
  have u: "0 < u" by (simp add: u_def pow2_pos)
  have td: "to_double x = of_int (round_ties_even (x / u)) * u"
    using assms by (simp add: to_double_def u_def Let_def)
  have p52: "pow2 52 = 2 ^ 52" and p53: "pow2 53 = 2 ^ 53" by (simp_all add: pow2_def)
  have "pow2 (ilog2 x) = pow2 (52 + (ilog2 x - 52))" by simp
  also have "\<dots> = pow2 52 * u" unfolding u_def by (rule pow2_add)
  finally have e1: "pow2 (ilog2 x) = 2 ^ 52 * u" by (simp only: p52)
  have "ilog2 x + 1 = 53 + (ilog2 x - 52)" by simp
  then have "pow2 (ilog2 x + 1) = pow2 (53 + (ilog2 x - 52))" by (rule arg_cong)
  also have "\<dots> = pow2 53 * u" unfolding u_def by (rule pow2_add)
  finally have e2: "pow2 (ilog2 x + 1) = 2 ^ 53 * u" by (simp only: p53)
  from ilog2_bounds [OF assms] have "2 ^ 52 * u \<le> x" "x < 2 ^ 53 * u"
    by (simp_all add: e1 e2)
  then have m: "of_int (2 ^ 52) \<le> x / u" "x / u \<le> of_int (2 ^ 53)"
    using u by (simp_all add: pos_le_divide_eq pos_divide_le_eq)
  have "round_ties_even (of_int (2 ^ 52)) \<le> round_ties_even (x / u)"
    "round_ties_even (x / u) \<le> round_ties_even (of_int (2 ^ 53))"
    by (simp_all only: round_ties_even_mono [OF m(1)] round_ties_even_mono [OF m(2)])
  then have "2 ^ 52 \<le> round_ties_even (x / u)" "round_ties_even (x / u) \<le> 2 ^ 53"
    unfolding round_ties_even_of_int by simp_all
  then have "(of_int (2 ^ 52) :: rat) \<le> of_int (round_ties_even (x / u))"
    "(of_int (round_ties_even (x / u)) :: rat) \<le> of_int (2 ^ 53)"
    by (simp_all only: of_int_le_iff)
  then have "2 ^ 52 * u \<le> of_int (round_ties_even (x / u)) * u"
    "of_int (round_ties_even (x / u)) * u \<le> 2 ^ 53 * u"
    using u by (simp_all add: mult_right_mono)
  then show ?thesis by (simp add: td e1 e2)
qed

lemma ilog2_mono:
  assumes "0 < x" "x \<le> y"
  shows "ilog2 x \<le> ilog2 y"
proof -
  have "0 < y" using assms by simp
  from ilog2_bounds [OF assms(1)] ilog2_bounds [OF this] assms(2)
  have "pow2 (ilog2 x) < pow2 (ilog2 y + 1)" by linarith
  then have "ilog2 x < ilog2 y + 1" by (rule pow2_less_imp)
  then show ?thesis by simp
qed

lemma to_double_nonneg: "0 \<le> x \<Longrightarrow> 0 \<le> to_double x"
proof (cases "x = 0")
  case True
  then show ?thesis by (simp add: to_double_def)
next
  case False
  assume "0 \<le> x"
  with False have "0 < x" by simp
  from to_double_bounds [OF this] pow2_pos [of "ilog2 x"] show ?thesis by linarith
qed

lemma to_double_mono:
  assumes "0 \<le> x" "x \<le> y"
  shows "to_double x \<le> to_double y"
proof (cases "x = 0")
  case True
  then show ?thesis using assms to_double_nonneg [of y] by (simp add: to_double_def)
next
  case False
  then have x: "0 < x" using assms by simp
  then have y: "0 < y" using assms by simp
  have le: "ilog2 x \<le> ilog2 y" using x assms(2) by (rule ilog2_mono)
  show ?thesis
  proof (cases "ilog2 x = ilog2 y")
    case True
    define u where "u = pow2 (ilog2 y - 52)"
    have u: "0 < u" by (simp add: u_def pow2_pos)
    have "x / u \<le> y / u" using assms(2) u by (simp add: divide_right_mono)
    then have "round_ties_even (x / u) \<le> round_ties_even (y / u)"
      by (rule round_ties_even_mono)
    then have "(of_int (round_ties_even (x / u)) :: rat) \<le> of_int (round_ties_even (y / u))"
      by (simp only: of_int_le_iff)
    then have "of_int (round_ties_even (x / u)) * u \<le> of_int (round_ties_even (y / u)) * u"
      using u by (simp add: mult_right_mono)
    then show ?thesis using x y True by (simp add: to_double_def Let_def u_def)
  next
    case False
    then have "ilog2 x + 1 \<le> ilog2 y" using le by simp
    then have "pow2 (ilog2 x + 1) \<le> pow2 (ilog2 y)" by (rule pow2_mono)
    with to_double_bounds [OF x] to_double_bounds [OF y] show ?thesis by linarith
  qed
qed

lemma to_double_1: "to_double 1 = 1" by code_simp

lemma to_double_100: "to_double 100 = 100" by code_simp

lemma math_round_100: "math_round 100 = 100" by code_simp

lemma progress_pct_full: "0 < n \<Longrightarrow> progress_pct n n = 100"
  by (simp add: progress_pct_def js_div_def js_mul_def to_double_1 to_double_100 math_round_100)

section \<open>The page percentage against exact rounding\<close>

text \<open>
  Rounding to a double moves a positive value by at most the fraction \<open>2^-53\<close> of it, so
  the double product \<open>(i / n) * 100\<close> is within \<open>300 * 2^-53\<close> of the exact \<open>100 i / n\<close>.
  Below \<open>2^32\<close> pages that is less than the distance of \<open>100 i / n + 1/2\<close> from the next
  integer unless it is an integer itself: the percentage is the exact quotient rounded
  half up, \<open>(200 i + n) div (2 n)\<close>, except that on an exact tie it may be one less. It
  is one less for page 23 of 40 (57, not 58) and for page 29 of 200 (14, not 15), and it
  is not for page 1 of 8 (13).
\<close>

lemma round_ties_even_err: "\<bar>of_int (round_ties_even m) - m\<bar> \<le> 1 / 2"
proof -
  define f where "f = \<lfloor>m\<rfloor>"
  have b: "of_int f \<le> m" "m < of_int f + 1" unfolding f_def by linarith+
  consider "m - of_int f < 1 / 2" | "1 / 2 < m - of_int f" | "m - of_int f = 1 / 2" by linarith
  then show ?thesis
  proof cases
    case 1
    then have "round_ties_even m = f" by (simp add: round_ties_even_def Let_def f_def)
    then show ?thesis using 1 b by (simp add: abs_if)
  next
    case 2
    then have "round_ties_even m = f + 1" by (simp add: round_ties_even_def Let_def f_def)
    then show ?thesis using 2 b by (simp add: abs_if)
  next
    case 3
    then have "round_ties_even m = f \<or> round_ties_even m = f + 1"
      by (simp add: round_ties_even_def Let_def f_def)
    then show ?thesis using 3 b by (auto simp: abs_if)
  qed
qed

lemma to_double_pos: "0 < x \<Longrightarrow> 0 < to_double x"
  using to_double_bounds [of x] pow2_pos [of "ilog2 x"] by linarith

lemma to_double_err:
  assumes "0 < x"
  shows "\<bar>to_double x - x\<bar> \<le> x / 2 ^ 53"
proof -
  define u where "u = pow2 (ilog2 x - 52)"
  have u: "0 < u" by (simp add: u_def pow2_pos)
  have td: "to_double x = of_int (round_ties_even (x / u)) * u"
    using assms by (simp add: to_double_def u_def Let_def)
  have p52: "pow2 52 = 2 ^ 52" by (simp add: pow2_def)
  have "pow2 (ilog2 x) = pow2 (52 + (ilog2 x - 52))" by simp
  also have "\<dots> = pow2 52 * u" unfolding u_def by (rule pow2_add)
  finally have e1: "pow2 (ilog2 x) = 2 ^ 52 * u" by (simp only: p52)
  have "2 ^ 52 * u \<le> x" using ilog2_bounds [OF assms] by (simp add: e1)
  then have ux: "u / 2 \<le> x / 2 ^ 53" by simp
  have "to_double x - x = (of_int (round_ties_even (x / u)) - x / u) * u"
    using u by (simp add: td algebra_simps)
  then have "\<bar>to_double x - x\<bar> = \<bar>of_int (round_ties_even (x / u)) - x / u\<bar> * u"
    using u by (simp add: abs_mult)
  also have "\<dots> \<le> (1 / 2) * u"
    using round_ties_even_err [of "x / u"] u by (intro mult_right_mono) simp_all
  finally show ?thesis using ux by simp
qed

lemma pct_err:
  assumes "0 < x" "x \<le> 1"
  shows "\<bar>to_double (to_double x * 100) - 100 * x\<bar> \<le> 300 / 2 ^ 53"
proof -
  define q where "q = to_double x"
  define y where "y = to_double (q * 100)"
  have q: "0 < q" unfolding q_def using assms(1) by (rule to_double_pos)
  have eq: "\<bar>q - x\<bar> \<le> x / 2 ^ 53" unfolding q_def using assms(1) by (rule to_double_err)
  have q100: "0 < q * 100" using q by simp
  have ey: "\<bar>y - q * 100\<bar> \<le> q * 100 / 2 ^ 53" unfolding y_def using q100 by (rule to_double_err)
  have x53: "x / 2 ^ 53 \<le> 1 / 2 ^ 53" using assms(2) by (simp add: divide_right_mono)
  have "(1::rat) / 2 ^ 53 \<le> 1" by simp
  moreover have "q - x \<le> \<bar>q - x\<bar>" by simp
  ultimately have qle: "q \<le> 2" using eq x53 assms(2) by linarith
  have "q * 100 / 2 ^ 53 \<le> 200 / 2 ^ 53" using qle by simp
  with ey have ey': "\<bar>y - q * 100\<bar> \<le> 200 / 2 ^ 53" by linarith
  have "\<bar>q * 100 - 100 * x\<bar> = 100 * \<bar>q - x\<bar>" by (simp add: abs_if)
  also have "\<dots> \<le> 100 * (1 / 2 ^ 53)" using eq x53 by simp
  finally have e2: "\<bar>q * 100 - 100 * x\<bar> \<le> 100 / 2 ^ 53" by simp
  have "\<bar>y - 100 * x\<bar> \<le> \<bar>y - q * 100\<bar> + \<bar>q * 100 - 100 * x\<bar>" by linarith
  then have "\<bar>y - 100 * x\<bar> \<le> 300 / 2 ^ 53" using ey' e2 by simp
  then show ?thesis by (simp add: y_def q_def)
qed

lemma progress_pct_exact:
  assumes "0 < i" "i \<le> n" "n < 2 ^ 32"
  shows "if (200 * i + n) mod (2 * n) = 0
         then progress_pct i n = int ((200 * i + n) div (2 * n)) \<or>
              progress_pct i n = int ((200 * i + n) div (2 * n)) - 1
         else progress_pct i n = int ((200 * i + n) div (2 * n))"
proof -
  define x :: rat where "x = of_nat i / of_nat n"
  define y where "y = to_double (to_double x * 100)"
  define r m where "r = (200 * i + n) div (2 * n)" and "m = (200 * i + n) mod (2 * n)"
  define B :: rat where "B = of_nat (2 * n)"
  have n: "0 < n" using assms by simp
  have B: "0 < B" "B < 2 ^ 33"
  proof -
    show "0 < B" using n by (simp add: B_def)
    have "2 * n < 2 ^ 33" using assms(3) by simp
    then have "(of_nat (2 * n) :: rat) < of_nat (2 ^ 33)" by (simp only: of_nat_less_iff)
    then show "B < 2 ^ 33" by (simp add: B_def)
  qed
  have x: "0 < x" "x \<le> 1" using assms n by (simp_all add: x_def)
  have p: "progress_pct i n = \<lfloor>y + 1 / 2\<rfloor>"
    by (simp add: progress_pct_def math_round_def js_mul_def js_div_def y_def x_def)
  define eps :: rat where "eps = 300 / 2 ^ 53"
  have err: "\<bar>y - 100 * x\<bar> \<le> eps" unfolding y_def eps_def using x by (rule pct_err)
  have "200 * i + n = r * (2 * n) + m"
    unfolding r_def m_def by (rule div_mult_mod_eq [symmetric])
  then have "(of_nat (200 * i + n) :: rat) = of_nat (r * (2 * n) + m)" by (simp only:)
  then have AB: "200 * of_nat i + of_nat n = of_nat r * B + (of_nat m :: rat)"
    by (simp add: B_def)
  have z: "100 * x + 1 / 2 = of_nat r + of_nat m / B"
  proof -
    have "100 * x + 1 / 2 = (200 * of_nat i + of_nat n) / B"
      using n by (simp add: x_def B_def field_simps)
    also have "\<dots> = (of_nat r * B + of_nat m) / B" by (simp only: AB)
    also have "\<dots> = of_nat r + of_nat m / B" using B(1) by (simp add: field_simps)
    finally show ?thesis .
  qed
  have eps: "eps < 1 / B"
  proof -
    have "eps < 1 / 2 ^ 33" by (simp add: eps_def)
    also have "\<dots> < 1 / B" using B by (simp add: field_simps)
    finally show ?thesis .
  qed
  have e1: "eps < 1" by (simp add: eps_def)
  have d1: "y - 100 * x \<le> eps" using err by (rule abs_le_D1)
  have d2: "- (y - 100 * x) \<le> eps" using err by (rule abs_le_D2)
  have lo: "of_nat r + of_nat m / B - eps \<le> y + 1 / 2"
    using d2 z by linarith
  have hi: "y + 1 / 2 \<le> of_nat r + of_nat m / B + eps"
    using d1 z by linarith
  show ?thesis
  proof (cases "m = 0")
    case True
    have a: "of_int (int r - 1) \<le> y + 1 / 2" using lo e1 True by simp
    have b: "y + 1 / 2 < of_int (int r) + 1" using hi e1 True by simp
    have "\<lfloor>y + 1 / 2\<rfloor> = int r \<or> \<lfloor>y + 1 / 2\<rfloor> = int r - 1"
    proof (cases "of_int (int r) \<le> y + 1 / 2")
      case True
      then have "\<lfloor>y + 1 / 2\<rfloor> = int r" using b by (rule floor_unique)
      then show ?thesis by simp
    next
      case False
      then have "y + 1 / 2 < of_int (int r - 1) + 1" by simp
      with a have "\<lfloor>y + 1 / 2\<rfloor> = int r - 1" by (rule floor_unique)
      then show ?thesis by simp
    qed
    then show ?thesis using True by (simp add: p r_def m_def)
  next
    case False
    then have m1: "1 \<le> m" by simp
    have "m < 2 * n" unfolding m_def using n by simp
    then have m2: "m + 1 \<le> 2 * n" by simp
    have "(of_nat 1 :: rat) \<le> of_nat m" using m1 by (simp only: of_nat_le_iff)
    then have "1 / B \<le> of_nat m / B"
      using B(1) by (intro divide_right_mono) simp_all
    then have f1: "eps \<le> of_nat m / B" using eps by linarith
    have "(of_nat (m + 1) :: rat) \<le> of_nat (2 * n)" using m2 by (simp only: of_nat_le_iff)
    then have "of_nat m + 1 \<le> B" by (simp add: B_def)
    then have "(of_nat m + 1) / B \<le> B / B" using B(1) by (intro divide_right_mono) simp_all
    then have "of_nat m / B + 1 / B \<le> 1" using B(1) by (simp add: add_divide_distrib)
    then have f2: "of_nat m / B + eps < 1" using eps by linarith
    have a: "of_int (int r) \<le> y + 1 / 2" using lo f1 by simp
    have b: "y + 1 / 2 < of_int (int r) + 1" using hi f2 by simp
    have "\<lfloor>y + 1 / 2\<rfloor> = int r" using a b by (rule floor_unique)
    then show ?thesis using False by (simp add: p r_def m_def)
  qed
qed

lemma progress_pct_examples:
  "progress_pct 1 2 = 50" "progress_pct 2 2 = 100" "progress_pct 29 200 = 14"
  "progress_pct 23 40 = 57" "progress_pct 1 8 = 13"
  by code_simp+

section \<open>Properties of the string operations\<close>

lemma trim_Nil_iff: "trim s = [] \<longleftrightarrow> (\<forall>c\<in>set s. is_js_space c)"
proof -
  have "trim s = [] \<longleftrightarrow> (\<forall>c\<in>set (dropWhile is_js_space s). is_js_space c)"
    by (simp add: trim_def)
  also have "\<dots> \<longleftrightarrow> dropWhile is_js_space s = []"
  proof
    assume a: "\<forall>c\<in>set (dropWhile is_js_space s). is_js_space c"
    show "dropWhile is_js_space s = []"
    proof (rule ccontr)
      assume n: "dropWhile is_js_space s \<noteq> []"
      then have "\<not> is_js_space (hd (dropWhile is_js_space s))" by (rule hd_dropWhile)
      moreover have "hd (dropWhile is_js_space s) \<in> set (dropWhile is_js_space s)"
        using n by simp
      ultimately show False using a by blast
    qed
  next
    assume e: "dropWhile is_js_space s = []"
    show "\<forall>c\<in>set (dropWhile is_js_space s). is_js_space c" unfolding e by simp
  qed
  also have "\<dots> \<longleftrightarrow> (\<forall>c\<in>set s. is_js_space c)"
    by simp
  finally show ?thesis .
qed

lemma split_acc_nonempty: "split_acc sep cur s \<noteq> []"
  by (induction s arbitrary: cur) auto

lemma join_Cons: "ys \<noteq> [] \<Longrightarrow> join (x # ys) sep = x @ sep @ join ys sep"
  by (cases ys) auto

lemma join_split_acc: "join (split_acc sep cur s) [sep] = cur @ s"
  by (induction s arbitrary: cur) (auto simp: join_Cons split_acc_nonempty)

lemma length_split_acc: "length (split_acc sep cur s) = Suc (count_list s sep)"
  by (induction s arbitrary: cur) auto

lemma split_acc_no_sep:
  "sep \<notin> set cur \<Longrightarrow> l \<in> set (split_acc sep cur s) \<Longrightarrow> sep \<notin> set l"
  by (induction s arbitrary: cur) (fastforce split: if_splits)+

lemma join_empty_sep: "join xs [] = concat xs"
  by (induction xs "[] :: jsstring" rule: join.induct) auto

lemma join_concat_sep: "xs \<noteq> [] \<Longrightarrow> concat (map (\<lambda>x. x @ sep) xs) = join xs sep @ sep"
  by (induction xs sep rule: join.induct) auto

section \<open>Properties of the extraction\<close>

lemma read_pages_all:
  "read_pages cb n i (map Some pages) acc calls =
     \<lparr>reported = calls @ (if cb then map (\<lambda>k. progress_pct k n) [i..<i + length pages] else []),
      outcome = Inr (acc @ concat (map (\<lambda>items. join items [SPACE] @ [NL, NL]) pages))\<rparr>"
proof (induction pages arbitrary: i acc calls)
  case Nil
  then show ?case by simp
next
  case (Cons p ps)
  have "[i..<i + length (p # ps)] = i # [Suc i..<Suc i + length ps]"
    by (simp add: upt_rec)
  then show ?case using Cons.IH [of "i + 1"] by simp
qed

text \<open>
  C2. For a document of N readable pages and a progress callback, \<open>readPdfAsText\<close> reads
  the pages in document order, joins the items of a page with one space and puts a
  double line feed after the text of every page, so between two consecutive pages there
  is exactly one (and one more after the last page). The callback is called exactly N
  times, the i-th time with \<open>Math.round((i / N) * 100)\<close> where the quotient and the
  product are rounded to doubles and \<open>Math.round\<close> is the floor of the value plus one
  half; the last call is with 100. Below \<open>2^32\<close> pages the i-th value is the exact
  \<open>100 i / N\<close> rounded half up, \<open>(200 i + N) div (2 N)\<close>, or, only when \<open>100 i / N\<close> lies
  exactly half way between two integers, possibly one less. Three pages report 33, 67
  and 100; page 23 of 40 reports 57.
\<close>

theorem readPdfAsText_spec:
  "readPdfAsText (Pdf (map Some pages)) True =
     \<lparr>reported = map (\<lambda>i. \<lfloor>to_double (to_double (of_nat i / of_nat (length pages)) * 100) + 1 / 2\<rfloor>)
                   [1..<Suc (length pages)],
      outcome = Inr (concat (map (\<lambda>items. join items [SPACE] @ [NL, NL]) pages))\<rparr> \<and>
   length (reported (readPdfAsText (Pdf (map Some pages)) True)) = length pages \<and>
   (pages \<noteq> [] \<longrightarrow>
      last (reported (readPdfAsText (Pdf (map Some pages)) True)) = 100 \<and>
      outcome (readPdfAsText (Pdf (map Some pages)) True) =
        Inr (join (map (\<lambda>items. join items [SPACE]) pages) [NL, NL] @ [NL, NL])) \<and>
   (length pages < 2 ^ 32 \<longrightarrow>
      (\<forall>i. 0 < i \<and> i \<le> length pages \<longrightarrow>
         (if (200 * i + length pages) mod (2 * length pages) = 0
          then reported (readPdfAsText (Pdf (map Some pages)) True) ! (i - 1) =
                 int ((200 * i + length pages) div (2 * length pages)) \<or>
               reported (readPdfAsText (Pdf (map Some pages)) True) ! (i - 1) =
                 int ((200 * i + length pages) div (2 * length pages)) - 1
          else reported (readPdfAsText (Pdf (map Some pages)) True) ! (i - 1) =
                 int ((200 * i + length pages) div (2 * length pages))))) \<and>
   reported (readPdfAsText (Pdf (replicate 3 (Some []))) True) = [33, 67, 100] \<and>
   reported (readPdfAsText (Pdf (replicate 40 (Some []))) True) ! 22 = 57"
proof -
  let ?R = "readPdfAsText (Pdf (map Some pages)) True"
  have r0: "?R =
     \<lparr>reported = map (\<lambda>i. progress_pct i (length pages)) [1..<Suc (length pages)],
      outcome = Inr (concat (map (\<lambda>items. join items [SPACE] @ [NL, NL]) pages))\<rparr>"
    by (simp add: readPdfAsText_def read_pages_all)
  have f: "progress_pct i (length pages) =
      \<lfloor>to_double (to_double (of_nat i / of_nat (length pages)) * 100) + 1 / 2\<rfloor>" for i
    by (simp add: progress_pct_def math_round_def js_mul_def js_div_def)
  have r: "?R =
     \<lparr>reported = map (\<lambda>i. \<lfloor>to_double (to_double (of_nat i / of_nat (length pages)) * 100) + 1 / 2\<rfloor>)
                   [1..<Suc (length pages)],
      outcome = Inr (concat (map (\<lambda>items. join items [SPACE] @ [NL, NL]) pages))\<rparr>"
    unfolding r0 f ..
  have l: "pages \<noteq> [] \<longrightarrow>
      last (map (\<lambda>i. progress_pct i (length pages)) [1..<Suc (length pages)]) = 100"
  proof
    assume ne: "pages \<noteq> []"
    then have "[1..<Suc (length pages)] = [1..<length pages] @ [length pages]"
      by (cases pages) simp_all
    then show "last (map (\<lambda>i. progress_pct i (length pages)) [1..<Suc (length pages)]) = 100"
      using ne by (simp add: progress_pct_full)
  qed
  have j: "pages \<noteq> [] \<longrightarrow> concat (map (\<lambda>items. join items [SPACE] @ [NL, NL]) pages) =
      join (map (\<lambda>items. join items [SPACE]) pages) [NL, NL] @ [NL, NL]"
    using join_concat_sep [of "map (\<lambda>items. join items [SPACE]) pages" "[NL, NL]"]
    by (simp add: comp_def)
  have c2: "length (reported ?R) = length pages"
    by (simp add: r0 del: upt_Suc)
  have c3: "pages \<noteq> [] \<longrightarrow>
      last (reported ?R) = 100 \<and>
      outcome ?R = Inr (join (map (\<lambda>items. join items [SPACE]) pages) [NL, NL] @ [NL, NL])"
    using l j by (simp add: r0 del: upt_Suc)
  have nth: "reported ?R ! (i - 1) = progress_pct i (length pages)"
    if "0 < i" "i \<le> length pages" for i
  proof -
    have "[1..<Suc (length pages)] ! (i - 1) = 1 + (i - 1)"
      using that by (intro nth_upt) simp
    then have "[1..<Suc (length pages)] ! (i - 1) = i" using that by simp
    moreover have "i - 1 < length [1..<Suc (length pages)]" using that by simp
    ultimately show ?thesis by (simp add: r0 del: upt_Suc)
  qed
  have c4: "length pages < 2 ^ 32 \<longrightarrow>
      (\<forall>i. 0 < i \<and> i \<le> length pages \<longrightarrow>
         (if (200 * i + length pages) mod (2 * length pages) = 0
          then reported ?R ! (i - 1) = int ((200 * i + length pages) div (2 * length pages)) \<or>
               reported ?R ! (i - 1) = int ((200 * i + length pages) div (2 * length pages)) - 1
          else reported ?R ! (i - 1) = int ((200 * i + length pages) div (2 * length pages))))"
  proof (intro impI allI)
    fix i assume n: "length pages < 2 ^ 32" and i: "0 < i \<and> i \<le> length pages"
    from i have i1: "0 < i" and i2: "i \<le> length pages" by simp_all
    show "if (200 * i + length pages) mod (2 * length pages) = 0
          then reported ?R ! (i - 1) = int ((200 * i + length pages) div (2 * length pages)) \<or>
               reported ?R ! (i - 1) = int ((200 * i + length pages) div (2 * length pages)) - 1
          else reported ?R ! (i - 1) = int ((200 * i + length pages) div (2 * length pages))"
      unfolding nth [OF i1 i2] using i1 i2 n by (rule progress_pct_exact)
  qed
  have c5: "reported (readPdfAsText (Pdf (replicate 3 (Some []))) True) = [33, 67, 100]"
    by code_simp
  have c6: "reported (readPdfAsText (Pdf (replicate 40 (Some []))) True) ! 22 = 57"
    by code_simp
  show ?thesis using r c2 c3 c4 c5 c6 by blast
qed

theorem readPdfAsText_spec_witness:
  "[[ascii ''Page'', ascii ''one''], [ascii ''two'']] \<noteq> [] \<and>
   readPdfAsText (Pdf [Some [ascii ''Page'', ascii ''one''], Some [ascii ''two'']]) True =
     \<lparr>reported = [50, 100],
      outcome = Inr (ascii ''Page one'' @ [NL, NL] @ ascii ''two'' @ [NL, NL])\<rparr> \<and>
   length [[ascii ''Page'', ascii ''one''], [ascii ''two'']] < 2 ^ 32 \<and>
   (200 * 1 + 2) mod (2 * 2) \<noteq> (0 :: nat) \<and>
   reported (readPdfAsText (Pdf [Some [ascii ''Page'', ascii ''one''], Some [ascii ''two'']]) True) ! 0 =
     int ((200 * 1 + 2) div (2 * 2))"
proof -
  let ?P = "[[ascii ''Page'', ascii ''one''], [ascii ''two'']]"
  have a: "readPdfAsText (Pdf (map Some ?P)) True =
     \<lparr>reported = map (\<lambda>i. \<lfloor>to_double (to_double (of_nat i / of_nat (length ?P)) * 100) + 1 / 2\<rfloor>)
                   [1..<Suc (length ?P)],
      outcome = Inr (concat (map (\<lambda>items. join items [SPACE] @ [NL, NL]) ?P))\<rparr>"
    using readPdfAsText_spec [of ?P] by blast
  have b: "map (\<lambda>i. \<lfloor>to_double (to_double (of_nat i / of_nat (length ?P)) * 100) + 1 / 2\<rfloor>)
      [1..<Suc (length ?P)] = [50, 100]"
    by code_simp
  have c: "concat (map (\<lambda>items. join items [SPACE] @ [NL, NL]) ?P) =
      ascii ''Page one'' @ [NL, NL] @ ascii ''two'' @ [NL, NL]"
    by (simp add: ascii_def SPACE_def)
  show ?thesis using a unfolding b c by simp
qed

section \<open>Properties of the streaming generator\<close>

lemma yielded_nonempty: "[] \<notin> set (yielded cs)"
  by (induction cs rule: yielded.induct) auto

lemma yielded_filter:
  "yielded cs = map the (filter (\<lambda>c. c \<noteq> None \<and> c \<noteq> Some []) cs)"
  by (induction cs rule: yielded.induct) auto

text \<open>
  C10. Every fragment the generator yields is a non-empty string: the fragments are the
  texts of the provider's chunks in order, without the chunks whose text is absent or
  empty.
\<close>

theorem fragments_nonempty:
  "[] \<notin> set (fst (translateTextStream ai txt src tgt)) \<and>
   fst (translateTextStream ai txt src tgt) =
     (if trim txt = [] then []
      else map the (filter (\<lambda>c. c \<noteq> None \<and> c \<noteq> Some []) (fst (ai (prompt txt src tgt)))))"
proof -
  have "[] \<notin> set (fst (translateTextStream ai txt src tgt))"
    by (simp add: translateTextStream_def split_beta yielded_nonempty)
  moreover have "fst (translateTextStream ai txt src tgt) =
     (if trim txt = [] then []
      else map the (filter (\<lambda>c. c \<noteq> None \<and> c \<noteq> Some []) (fst (ai (prompt txt src tgt)))))"
    by (simp add: translateTextStream_def split_beta yielded_filter)
  ultimately show ?thesis by (rule conjI)
qed

theorem fragments_nonempty_witness:
  "fst (translateTextStream (\<lambda>p. ([Some (ascii ''ab''), None, Some [], Some (ascii ''c'')], Completed))
     (ascii ''Hi'') AUTO PERSIAN) = [ascii ''ab'', ascii ''c''] \<and>
   [] \<notin> set (fst (translateTextStream
     (\<lambda>p. ([Some (ascii ''ab''), None, Some [], Some (ascii ''c'')], Completed))
     (ascii ''Hi'') AUTO PERSIAN))"
proof -
  have t: "trim (ascii ''Hi'') \<noteq> []"
    by (simp add: trim_def is_js_space_def ascii_def)
  show ?thesis
    using fragments_nonempty [of "\<lambda>p. ([Some (ascii ''ab''), None, Some [], Some (ascii ''c'')], Completed)"
      "ascii ''Hi''" AUTO PERSIAN] t
    by (simp add: ascii_def)
qed

text \<open>
  C5. For an input that is empty or holds white space only, the generator yields no
  fragment and completes without an error, and \<open>handleTranslate\<close> returns before its
  first state update: the state, and with it the status, is the one before the call.
\<close>

theorem blank_input_is_noop:
  assumes "\<forall>c\<in>set txt. is_js_space c"
  shows "translateTextStream ai txt src tgt = ([], Completed) \<and>
         (inputText s = txt \<longrightarrow> handleTranslate_trace ai s = [] \<and> handleTranslate ai s = s)"
  using assms trim_Nil_iff [of "txt"]
  by (simp add: translateTextStream_def handleTranslate_trace_def handleTranslate_def)

theorem blank_input_is_noop_witness:
  "translateTextStream (\<lambda>p. ([Some (ascii ''x'')], Completed)) [0x20, 0x0A, 0x09, 0xA0] AUTO PERSIAN =
     ([], Completed) \<and>
   handleTranslate (\<lambda>p. ([Some (ascii ''x'')], Completed))
     \<lparr>sourceLang = AUTO, targetLang = PERSIAN, inputText = [0x20, 0x0A, 0x09, 0xA0],
      outputText = ascii ''kept'', status = success, progress = 100\<rparr> =
     \<lparr>sourceLang = AUTO, targetLang = PERSIAN, inputText = [0x20, 0x0A, 0x09, 0xA0],
      outputText = ascii ''kept'', status = success, progress = 100\<rparr>"
proof -
  have h: "\<forall>c\<in>set [0x20, 0x0A, 0x09, 0xA0 :: jschar]. is_js_space c"
    by (simp add: is_js_space_def)
  show ?thesis
    using blank_input_is_noop [OF h, of "\<lambda>p. ([Some (ascii ''x'')], Completed)" AUTO PERSIAN
      "\<lparr>sourceLang = AUTO, targetLang = PERSIAN, inputText = [0x20, 0x0A, 0x09, 0xA0],
      outputText = ascii ''kept'', status = success, progress = 100\<rparr>"]
    by simp
qed

section \<open>Properties of the translation session\<close>

lemma raw_mono:
  assumes "0 \<le> est" "m \<le> n"
  shows "js_mul (js_div (of_nat m) est) 100 \<le> js_mul (js_div (of_nat n) est) 100"
proof -
  have q: "(of_nat m :: rat) / est \<le> of_nat n / est"
    using assms by (simp add: divide_right_mono)
  have q0: "0 \<le> (of_nat m :: rat) / est" using assms by simp
  have d: "js_div (of_nat m) est \<le> js_div (of_nat n) est"
    unfolding js_div_def using q0 q by (rule to_double_mono)
  have d0: "0 \<le> js_div (of_nat m) est"
    unfolding js_div_def using q0 by (rule to_double_nonneg)
  have "0 \<le> js_div (of_nat m) est * 100" using d0 by simp
  moreover have "js_div (of_nat m) est * 100 \<le> js_div (of_nat n) est * 100" using d by simp
  ultimately show ?thesis unfolding js_mul_def by (rule to_double_mono)
qed

lemma raw_nonneg:
  assumes "0 \<le> est"
  shows "0 \<le> js_mul (js_div (of_nat n) est) 100"
proof -
  have "0 \<le> (of_nat n :: rat) / est" using assms by simp
  then have "0 \<le> js_div (of_nat n) est" unfolding js_div_def by (rule to_double_nonneg)
  then have "0 \<le> js_div (of_nat n) est * 100" by simp
  then show ?thesis unfolding js_mul_def by (rule to_double_nonneg)
qed

lemma estimatedLength_nonneg: "0 \<le> estimatedLength_of txt"
proof -
  have "0 \<le> to_double (12 / 10)" by (rule to_double_nonneg) simp
  then have "0 \<le> of_nat (length txt) * to_double (12 / 10)" by simp
  then show ?thesis unfolding estimatedLength_of_def js_mul_def by (rule to_double_nonneg)
qed

lemma grows_refl: "grows a a" by (simp add: grows_def)

lemma grows_trans: "grows a b \<Longrightarrow> grows b c \<Longrightarrow> grows a c"
  by (auto simp: grows_def elim: prefix_order.trans)

lemma append_chunk_grows: "grows s (append_chunk s c)"
  by (simp add: grows_def append_chunk_def)

lemma append_chunk_capped:
  assumes "0 \<le> est" "capped est s"
  shows "capped est (append_chunk s c)"
proof -
  have "js_mul (js_div (of_nat (length (outputText s))) est) 100
        \<le> js_mul (js_div (of_nat (length (outputText s @ c))) est) 100"
    using assms(1) by (rule raw_mono) simp
  then show ?thesis using assms(2) by (simp add: capped_def append_chunk_def)
qed

lemma report_progress_grows:
  "progress s \<le> min (js_mul (js_div (of_nat cur) est) 100) 95 \<Longrightarrow>
   grows s (report_progress est cur s)"
  by (simp add: grows_def report_progress_def Let_def)

lemma report_progress_capped:
  assumes "0 \<le> est" "cur \<le> length (outputText s)"
  shows "capped est (report_progress est cur s)"
proof -
  have "js_mul (js_div (of_nat cur) est) 100
        \<le> js_mul (js_div (of_nat (length (outputText s))) est) 100"
    using assms by (rule raw_mono)
  then show ?thesis by (simp add: capped_def report_progress_def Let_def min_le_iff_disj)
qed


lemma consume_invariant:
  assumes "0 \<le> est"
  shows "capped est s \<Longrightarrow> cur = length (outputText s) \<Longrightarrow>
    (\<forall>t\<in>set (consume est cur s frags). grows s t \<and> capped est t \<and> status t = status s) \<and>
    sorted_wrt grows (consume est cur s frags)"
proof (induction frags arbitrary: s cur)
  case Nil
  then show ?case by simp
next
  case (Cons c rest)
  let ?s1 = "append_chunk s c"
  let ?s2 = "report_progress est cur ?s1"
  have c1: "capped est ?s1" using assms Cons.prems(1) by (rule append_chunk_capped)
  have le: "cur \<le> length (outputText ?s1)" using Cons.prems(2) by (simp add: append_chunk_def)
  have c2: "capped est ?s2" using assms le by (rule report_progress_capped)
  have g1: "grows s ?s1" by (rule append_chunk_grows)
  have "progress ?s1 \<le> min (js_mul (js_div (of_nat cur) est) 100) 95"
    using Cons.prems by (simp add: capped_def append_chunk_def)
  then have g12: "grows ?s1 ?s2" by (rule report_progress_grows)
  have g2: "grows s ?s2" using g1 g12 by (rule grows_trans)
  have st: "status ?s1 = status s" "status ?s2 = status s"
    by (simp_all add: append_chunk_def report_progress_def Let_def)
  have len: "length (outputText ?s1) = length (outputText ?s2)"
    by (simp add: report_progress_def Let_def)
  from Cons.IH [OF c2 len] have ih:
    "\<forall>t\<in>set (consume est (length (outputText ?s1)) ?s2 rest).
       grows ?s2 t \<and> capped est t \<and> status t = status ?s2"
    "sorted_wrt grows (consume est (length (outputText ?s1)) ?s2 rest)" by simp_all
  have a: "\<forall>t\<in>set (consume est (length (outputText ?s1)) ?s2 rest). grows s t \<and> grows ?s1 t"
    using ih(1) g2 g12 by (blast intro: grows_trans)
  show ?case
    using c1 c2 g1 g12 g2 st ih a by simp
qed

lemma consume_output:
  "outputText (last (s # consume est cur s frags)) = outputText s @ concat frags"
  by (induction frags arbitrary: s cur)
     (simp_all add: append_chunk_def report_progress_def Let_def)




lemma session_start_capped: "0 \<le> est \<Longrightarrow> capped est (session_start s)"
  using raw_nonneg [of est 0] by (simp add: capped_def session_start_def)

lemma streaming_states_facts:
  "(\<forall>t\<in>set (streaming_states ai s).
      grows (session_start s) t \<and> capped (estimatedLength_of (inputText s)) t \<and> status t = translating) \<and>
   sorted_wrt grows (streaming_states ai s)"
proof -
  let ?est = "estimatedLength_of (inputText s)"
  have e: "0 \<le> ?est" by (rule estimatedLength_nonneg)
  have c: "capped ?est (session_start s)" using e by (rule session_start_capped)
  have st: "status (session_start s) = translating" by (simp add: session_start_def)
  have l: "0 = length (outputText (session_start s))" by (simp add: session_start_def)
  from consume_invariant [OF e c l] show ?thesis
    unfolding streaming_states_def using c st by (simp add: grows_refl)
qed

lemma streaming_states_last_output:
  "outputText (last (streaming_states ai s)) =
   concat (fst (translateTextStream ai (inputText s) (sourceLang s) (targetLang s)))"
  unfolding streaming_states_def using consume_output [of "session_start s"]
  by (simp add: session_start_def)








text \<open>
  C6. When the provider stream throws, after any number of fragments, the session ends
  in the status \<open>error\<close>, exactly one state of the run has that status (the last), and
  the output and the progress are those of the last state of the stream: the output is
  the concatenation of the fragments consumed.
\<close>

theorem handleTranslate_failure:
  assumes "trim (inputText s) \<noteq> []"
    and "snd (ai (prompt (inputText s) (sourceLang s) (targetLang s))) = Threw"
  shows "status (handleTranslate ai s) = error \<and>
         outputText (handleTranslate ai s) =
           concat (yielded (fst (ai (prompt (inputText s) (sourceLang s) (targetLang s))))) \<and>
         outputText (handleTranslate ai s) = outputText (last (streaming_states ai s)) \<and>
         progress (handleTranslate ai s) = progress (last (streaming_states ai s)) \<and>
         filter (\<lambda>t. status t = error) (handleTranslate_trace ai s) = [handleTranslate ai s]"
proof -
  let ?xs = "streaming_states ai s"
  have ts: "translateTextStream ai (inputText s) (sourceLang s) (targetLang s) =
      (yielded (fst (ai (prompt (inputText s) (sourceLang s) (targetLang s)))), Threw)"
    using assms by (simp add: translateTextStream_def split_beta)
  have tr: "handleTranslate_trace ai s =
      [s\<lparr>status := translating\<rparr>, s\<lparr>status := translating, outputText := []\<rparr>] @
      ?xs @ [(last ?xs)\<lparr>status := error\<rparr>]"
    using assms(1) by (simp add: handleTranslate_trace_def ts closing_states_def)
  have h: "handleTranslate ai s = (last ?xs)\<lparr>status := error\<rparr>"
    by (simp add: handleTranslate_def tr)
  have "\<forall>t\<in>set ?xs. status t = translating"
    using streaming_states_facts [of ai s] by simp
  then have f: "filter (\<lambda>t. status t = error) ?xs = []"
    by (auto simp: filter_empty_conv)
  have out: "outputText (last ?xs) =
      concat (yielded (fst (ai (prompt (inputText s) (sourceLang s) (targetLang s)))))"
    using streaming_states_last_output [of ai s] by (simp add: ts)
  show ?thesis
    by (simp add: h out) (simp add: tr f)
qed

theorem handleTranslate_failure_witness:
  "status (handleTranslate (\<lambda>p. ([Some (ascii ''ab''), None, Some [], Some (ascii ''c'')], Threw))
     \<lparr>sourceLang = ENGLISH, targetLang = PERSIAN, inputText = ascii ''Hi'',
      outputText = [], status = idle, progress = 0\<rparr>) = error \<and>
   outputText (handleTranslate (\<lambda>p. ([Some (ascii ''ab''), None, Some [], Some (ascii ''c'')], Threw))
     \<lparr>sourceLang = ENGLISH, targetLang = PERSIAN, inputText = ascii ''Hi'',
      outputText = [], status = idle, progress = 0\<rparr>) = ascii ''abc''"
proof -
  let ?ai = "\<lambda>p::jsstring. ([Some (ascii ''ab''), None, Some [], Some (ascii ''c'')], Threw)"
  let ?s = "\<lparr>sourceLang = ENGLISH, targetLang = PERSIAN, inputText = ascii ''Hi'',
      outputText = [], status = idle, progress = 0\<rparr>"
  have h1: "trim (inputText ?s) \<noteq> []"
    by (simp add: trim_def is_js_space_def ascii_def)
  have h2: "snd (?ai (prompt (inputText ?s) (sourceLang ?s) (targetLang ?s))) = Threw" by simp
  have "status (handleTranslate ?ai ?s) = error \<and>
    outputText (handleTranslate ?ai ?s) =
      concat (yielded (fst (?ai (prompt (inputText ?s) (sourceLang ?s) (targetLang ?s)))))"
    using handleTranslate_failure [OF h1 h2] by blast
  then show ?thesis by (simp add: ascii_def)
qed

section \<open>Properties of the export\<close>

lemma ext_distinct:
  "ascii ''.docx'' \<noteq> ascii ''.pdf''" "ascii ''.txt'' \<noteq> ascii ''.pdf''"
  "ascii ''.txt'' \<noteq> ascii ''.docx''" "ascii ''.txt'' \<noteq> ascii ''.doc''"
  by (simp_all add: ascii_def)

lemma safeExtension_literals:
  "safeExtension_of (ascii ''.txt'') = ascii ''.txt''"
  "safeExtension_of (ascii ''.md'') = ascii ''.md''"
  "safeExtension_of (ascii ''.json'') = ascii ''.json''"
  "safeExtension_of (ascii ''.html'') = ascii ''.html''"
  "safeExtension_of (ascii ''.csv'') = ascii ''.csv''"
  "safeExtension_of (ascii ''.xml'') = ascii ''.xml''"
  "safeExtension_of (ascii ''.srt'') = ascii ''.srt''"
  "safeExtension_of (ascii ''.vtt'') = ascii ''.vtt''"
  "safeExtension_of (ascii ''.pdf'') = ascii ''.pdf''"
  "safeExtension_of (ascii ''.docx'') = ascii ''.docx''"
  by (simp_all add: safeExtension_of_def startsWith_def toLowerCase_def lower_unit_def ascii_def DOT_def)

lemma mimeType_literals:
  "mimeType_of (ascii ''.json'') = ascii ''application/json''"
  "mimeType_of (ascii ''.html'') = ascii ''text/html''"
  "mimeType_of (ascii ''.csv'') = ascii ''text/csv''"
  "mimeType_of (ascii ''.xml'') = ascii ''text/xml''"
  "mimeType_of (ascii ''.md'') = ascii ''text/markdown''"
  "mimeType_of (ascii ''.txt'') = ascii ''text/plain''"
  "mimeType_of (ascii ''.srt'') = ascii ''text/plain''"
  "mimeType_of (ascii ''.vtt'') = ascii ''text/plain''"
  by (simp_all add: mimeType_of_def ascii_def)


lemma downloadFile_docx:
  assumes "safeExtension_of ext = ascii ''.docx'' \<or> safeExtension_of ext = ascii ''.doc''"
  shows "downloadFile popup content filename ext =
    Downloaded
      \<lparr>parts = [[BOM], sourceHTML_of content],
       blob_type = ascii ''application/vnd.openxmlformats-officedocument.wordprocessingml.document''\<rparr>
      (filename @ safeExtension_of ext)"
proof -
  have "ascii ''.docx'' \<noteq> ascii ''.pdf''" "ascii ''.doc'' \<noteq> ascii ''.pdf''"
    by (simp_all add: ascii_def)
  then have "safeExtension_of ext \<noteq> ascii ''.pdf''" using assms by auto
  then show ?thesis using assms by (simp add: downloadFile_def Let_def)
qed

text \<open>
  C9. For an extension that normalises to \<open>.docx\<close> or \<open>.doc\<close>, \<open>downloadFile\<close> downloads
  the byte-order mark followed by the page: the header, the elements of the content in
  order, and the footer. The content is split at line feeds (no line holds a line feed,
  the lines joined by line feeds are the content again, and there is one more line than
  line feeds) and every line is mapped to one element: a line that is not blank to a
  paragraph with the alignment and direction attributes, a blank line (empty or white
  space only) to the spacing paragraph \<open><p>&nbsp;</p>\<close>. There are as many elements as
  lines.
\<close>

theorem docx_paragraphs_spec:
\<open>(safeExtension_of ext = ascii ''.docx'' \<or> safeExtension_of ext = ascii ''.doc'' \<longrightarrow>
     downloadFile popup content filename ext =
       Downloaded
         \<lparr>parts = [[BOM],
                   docx_header (if isRtl_of content then persian_font_rule else []) @
                   concat (docx_paragraphs content) @ ascii ''</body></html>''],
          blob_type = ascii ''application/vnd.openxmlformats-officedocument.wordprocessingml.document''\<rparr>
         (filename @ safeExtension_of ext)) \<and>
  length (docx_paragraphs content) = length (split content NL) \<and>
  length (split content NL) = Suc (count_list content NL) \<and>
  join (split content NL) [NL] = content \<and>
  (\<forall>l\<in>set (split content NL). NL \<notin> set l) \<and>
  (\<forall>i<length (split content NL).
     docx_paragraphs content ! i =
       (if trim (split content NL ! i) = [] then ascii ''<p>&nbsp;</p>''
        else ascii ''<p align="'' @ (if isRtl_of content then ascii ''right'' else ascii ''left'') @
             ascii ''" dir="'' @ (if isRtl_of content then ascii ''rtl'' else ascii ''ltr'') @
             ascii ''" style="text-align:'' @
             (if isRtl_of content then ascii ''right'' else ascii ''left'') @
             ascii ''; direction:'' @ (if isRtl_of content then ascii ''rtl'' else ascii ''ltr'') @
             ascii ''; unicode-bidi:embed">'' @ split content NL ! i @ ascii ''</p>'')) \<and>
  sourceHTML_of content =
    docx_header (if isRtl_of content then persian_font_rule else []) @
    concat (docx_paragraphs content) @ ascii ''</body></html>''\<close>
proof -
  have a: "length (docx_paragraphs content) = length (split content NL)"
    by (simp add: docx_paragraphs_def Let_def)
  have b: "length (split content NL) = Suc (count_list content NL)"
    by (simp add: split_def length_split_acc)
  have c: "join (split content NL) [NL] = content"
    by (simp add: split_def join_split_acc)
  have d: "sourceHTML_of content =
    docx_header (if isRtl_of content then persian_font_rule else []) @
    concat (docx_paragraphs content) @ ascii ''</body></html>''"
    by (simp add: sourceHTML_of_def join_empty_sep)
  have e: "\<forall>l\<in>set (split content NL). NL \<notin> set l"
    using split_acc_no_sep [of NL "[]" _ content] by (auto simp: split_def)
  have f: "safeExtension_of ext = ascii ''.docx'' \<or> safeExtension_of ext = ascii ''.doc'' \<longrightarrow>
     downloadFile popup content filename ext =
       Downloaded
         \<lparr>parts = [[BOM],
                   docx_header (if isRtl_of content then persian_font_rule else []) @
                   concat (docx_paragraphs content) @ ascii ''</body></html>''],
          blob_type = ascii ''application/vnd.openxmlformats-officedocument.wordprocessingml.document''\<rparr>
         (filename @ safeExtension_of ext)"
    using downloadFile_docx [of ext popup content filename] unfolding d by blast
  have g: \<open>\<forall>i<length (split content NL).
     docx_paragraphs content ! i =
       (if trim (split content NL ! i) = [] then ascii ''<p>&nbsp;</p>''
        else ascii ''<p align="'' @ (if isRtl_of content then ascii ''right'' else ascii ''left'') @
             ascii ''" dir="'' @ (if isRtl_of content then ascii ''rtl'' else ascii ''ltr'') @
             ascii ''" style="text-align:'' @
             (if isRtl_of content then ascii ''right'' else ascii ''left'') @
             ascii ''; direction:'' @ (if isRtl_of content then ascii ''rtl'' else ascii ''ltr'') @
             ascii ''; unicode-bidi:embed">'' @ split content NL ! i @ ascii ''</p>'')\<close>
    by (simp add: docx_paragraphs_def Let_def docx_line_def)
  show ?thesis using a b c d e f g by blast
qed

theorem docx_paragraphs_spec_witness:
\<open>safeExtension_of (ascii ''DOCX'') = ascii ''.docx'' \<and>
  downloadFile False (ascii ''Line1'' @ [NL, SPACE, 0x09, NL, NL] @ ascii ''Line2'') (ascii ''out'')
      (ascii ''DOCX'') =
    Downloaded
      \<lparr>parts = [[BOM],
                docx_header [] @
                ascii ''<p align="left" dir="ltr" style="text-align:left; direction:ltr; unicode-bidi:embed">Line1</p>'' @
                ascii ''<p>&nbsp;</p>'' @ ascii ''<p>&nbsp;</p>'' @
                ascii ''<p align="left" dir="ltr" style="text-align:left; direction:ltr; unicode-bidi:embed">Line2</p>'' @
                ascii ''</body></html>''],
       blob_type = ascii ''application/vnd.openxmlformats-officedocument.wordprocessingml.document''\<rparr>
      (ascii ''out.docx'') \<and>
  length (docx_paragraphs (ascii ''Line1'' @ [NL, SPACE, 0x09, NL, NL] @ ascii ''Line2'')) = 4 \<and>
  docx_paragraphs (ascii ''Line1'' @ [NL, SPACE, 0x09, NL, NL] @ ascii ''Line2'') ! 1 =
    ascii ''<p>&nbsp;</p>'' \<and>
  docx_paragraphs (ascii ''Line1'' @ [NL, SPACE, 0x09, NL, NL] @ ascii ''Line2'') ! 3 =
    ascii ''<p align="left" dir="ltr" style="text-align:left; direction:ltr; unicode-bidi:embed">Line2</p>''\<close>
proof -
  let ?c = "ascii ''Line1'' @ [NL, SPACE, 0x09, NL, NL] @ ascii ''Line2''"
  have x: "safeExtension_of (ascii ''DOCX'') = ascii ''.docx''"
    by (simp add: safeExtension_of_def startsWith_def toLowerCase_def lower_unit_def ascii_def DOT_def)
  have s: "split ?c NL = [ascii ''Line1'', [SPACE, 0x09], [], ascii ''Line2'']"
    by (simp add: split_def ascii_def NL_def SPACE_def)
  have r: "\<not> isRtl_of ?c" by (simp add: isRtl_of_def ascii_def NL_def SPACE_def)
  have t: "trim [] = []" "trim [SPACE, 0x09] = []" "trim (ascii ''Line1'') \<noteq> []"
    "trim (ascii ''Line2'') \<noteq> []"
    by (simp_all add: trim_def is_js_space_def ascii_def SPACE_def)
  have p: \<open>docx_paragraphs ?c =
    [ascii ''<p align="left" dir="ltr" style="text-align:left; direction:ltr; unicode-bidi:embed">Line1</p>'',
     ascii ''<p>&nbsp;</p>'', ascii ''<p>&nbsp;</p>'',
     ascii ''<p align="left" dir="ltr" style="text-align:left; direction:ltr; unicode-bidi:embed">Line2</p>'']\<close>
    unfolding docx_paragraphs_def Let_def s using r t
    by (simp add: docx_line_def ascii_def)
  have w: "downloadFile False ?c (ascii ''out'') (ascii ''DOCX'') =
       Downloaded
         \<lparr>parts = [[BOM],
                   docx_header (if isRtl_of ?c then persian_font_rule else []) @
                   concat (docx_paragraphs ?c) @ ascii ''</body></html>''],
          blob_type = ascii ''application/vnd.openxmlformats-officedocument.wordprocessingml.document''\<rparr>
         (ascii ''out'' @ safeExtension_of (ascii ''DOCX''))"
    using docx_paragraphs_spec [of "ascii ''DOCX''" False ?c "ascii ''out''"] x by blast
  have n: "ascii ''out'' @ ascii ''.docx'' = ascii ''out.docx''" by (simp add: ascii_def)
  show ?thesis
    unfolding w x p n using r by simp
qed

lemma utf8_roundtrip1:
  "cp < 0x80 \<Longrightarrow> utf8_decode (utf8_encode cp @ rest) = map_option (Cons cp) (utf8_decode rest)"
  by (simp add: utf8_encode_def)

lemma utf8_roundtrip2:
  assumes "0x80 \<le> cp" "cp < 0x800"
  shows "utf8_decode (utf8_encode cp @ rest) = map_option (Cons cp) (utf8_decode rest)"
proof -
  define a b where "a = cp div 0x40" and "b = cp mod 0x40"
  have cp: "cp = a * 0x40 + b" by (simp add: a_def b_def)
  have r: "2 \<le> a" "a < 0x20" "b < 0x40" using assms unfolding a_def b_def by arith+
  have e: "utf8_encode cp = [0xC0 + a, 0x80 + b]"
    using assms by (simp add: utf8_encode_def a_def b_def)
  show ?thesis unfolding e using r by (simp add: is_cont_def cp)
qed

lemma utf8_roundtrip3:
  assumes "0x800 \<le> cp" "cp < 0x10000" "\<not> (0xD800 \<le> cp \<and> cp < 0xE000)"
  shows "utf8_decode (utf8_encode cp @ rest) = map_option (Cons cp) (utf8_decode rest)"
proof -
  define a b c where "a = cp div 0x1000" and "b = cp div 0x40 mod 0x40" and "c = cp mod 0x40"
  have m: "cp mod 0x1000 = 0x40 * b + c"
    using mod_mult2_eq [of cp "0x40" "0x40"] by (simp add: b_def c_def)
  have "cp = a * 0x1000 + cp mod 0x1000" by (simp add: a_def)
  then have cp: "cp = a * 0x1000 + b * 0x40 + c" using m by simp
  have ra: "a < 0x10" unfolding a_def using assms(2) by (intro less_mult_imp_div_less) simp
  have rb: "b < 0x40" "c < 0x40" by (simp_all add: b_def c_def)
  have e: "utf8_encode cp = [0xE0 + a, 0x80 + b, 0x80 + c]"
    using assms by (simp add: utf8_encode_def a_def b_def c_def)
  have v: "0x800 \<le> a * 0x1000 + b * 0x40 + c"
    "\<not> (0xD800 \<le> a * 0x1000 + b * 0x40 + c \<and> a * 0x1000 + b * 0x40 + c < 0xE000)"
    using assms unfolding cp [symmetric] by simp_all
  have d: "utf8_decode ([0xE0 + a, 0x80 + b, 0x80 + c] @ rest) =
      map_option (Cons (a * 0x1000 + b * 0x40 + c)) (utf8_decode rest)"
    using ra rb v by (simp add: is_cont_def Let_def)
  show ?thesis unfolding e d using cp by simp
qed

lemma utf8_roundtrip4:
  assumes "0x10000 \<le> cp" "cp < 0x110000"
  shows "utf8_decode (utf8_encode cp @ rest) = map_option (Cons cp) (utf8_decode rest)"
proof -
  define a b c d where "a = cp div 0x40000" and "b = cp div 0x1000 mod 0x40"
    and "c = cp div 0x40 mod 0x40" and "d = cp mod 0x40"
  have m1: "cp mod 0x1000 = 0x40 * c + d"
    using mod_mult2_eq [of cp "0x40" "0x40"] by (simp add: c_def d_def)
  have m2: "cp mod 0x40000 = 0x1000 * b + cp mod 0x1000"
    using mod_mult2_eq [of cp "0x1000" "0x40"] by (simp add: b_def)
  have "cp = a * 0x40000 + cp mod 0x40000" by (simp add: a_def)
  then have cp: "cp = a * 0x40000 + b * 0x1000 + c * 0x40 + d" using m1 m2 by simp
  have ra: "a < 0x5" unfolding a_def using assms(2) by (intro less_mult_imp_div_less) simp
  have rb: "b < 0x40" "c < 0x40" "d < 0x40" by (simp_all add: b_def c_def d_def)
  have e: "utf8_encode cp = [0xF0 + a, 0x80 + b, 0x80 + c, 0x80 + d]"
    using assms by (simp add: utf8_encode_def a_def b_def c_def d_def)
  have v: "0x10000 \<le> a * 0x40000 + b * 0x1000 + c * 0x40 + d"
    "a * 0x40000 + b * 0x1000 + c * 0x40 + d < 0x110000"
    using assms unfolding cp [symmetric] by simp_all
  have dd: "utf8_decode ([0xF0 + a, 0x80 + b, 0x80 + c, 0x80 + d] @ rest) =
      map_option (Cons (a * 0x40000 + b * 0x1000 + c * 0x40 + d)) (utf8_decode rest)"
  proof -
    have s: "0xF0 + a - 0xF0 = a" "0x80 + b - 0x80 = b" "0x80 + c - 0x80 = c" "0x80 + d - 0x80 = d"
      by simp_all
    have k: "\<not> 0xF0 + a < (0x80::nat)" "\<not> (0xC2 \<le> 0xF0 + a \<and> 0xF0 + a < (0xE0::nat))"
      "\<not> (0xE0 \<le> 0xF0 + a \<and> 0xF0 + a < (0xF0::nat))" "0xF0 \<le> 0xF0 + a \<and> 0xF0 + a < (0xF5::nat)"
      using ra by simp_all
    have i: "is_cont (0x80 + b)" "is_cont (0x80 + c)" "is_cont (0x80 + d)"
      using rb by (simp_all add: is_cont_def)
    show ?thesis
      by (simp only: append_Cons append_Nil utf8_decode.simps k i s v Let_def list.case if_True if_False simp_thms)
  qed
  show ?thesis unfolding e dd using cp by simp
qed

lemma utf8_roundtrip:
  assumes "scalar_ok cp"
  shows "utf8_decode (utf8_encode cp @ rest) = map_option (Cons cp) (utf8_decode rest)"
proof -
  consider "cp < 0x80" | "0x80 \<le> cp" "cp < 0x800" | "0x800 \<le> cp" "cp < 0x10000"
    | "0x10000 \<le> cp" by linarith
  then show ?thesis
  proof cases
    case 1 then show ?thesis by (rule utf8_roundtrip1)
  next
    case 2 then show ?thesis by (rule utf8_roundtrip2)
  next
    case 3 then show ?thesis using assms by (intro utf8_roundtrip3) (simp_all add: scalar_ok_def)
  next
    case 4 then show ?thesis using assms by (intro utf8_roundtrip4) (simp_all add: scalar_ok_def)
  qed
qed

lemma utf8_decode_encode:
  "\<forall>cp\<in>set cps. scalar_ok cp \<Longrightarrow> utf8_decode (concat (map utf8_encode cps) @ rest) =
     map_option ((@) cps) (utf8_decode rest)"
proof (induction cps)
  case Nil
  then show ?case by (simp add: option.map_ident)
next
  case (Cons cp cps)
  then show ?case by (simp add: utf8_roundtrip option.map_comp comp_def)
qed

lemma is_high_unat: "is_high c \<longleftrightarrow> 0xD800 \<le> unat c \<and> unat c \<le> 0xDBFF"
  by (simp add: is_high_def word_le_nat_alt)

lemma is_low_unat: "is_low c \<longleftrightarrow> 0xDC00 \<le> unat c \<and> unat c \<le> 0xDFFF"
  by (simp add: is_low_def word_le_nat_alt)

lemma unat_jschar: "unat (c :: jschar) < 0x10000"
  using unsigned_less [of c, where 'a = nat] by simp

lemma scalar_values_ok: "cp \<in> set (scalar_values s) \<Longrightarrow> scalar_ok cp"
proof (induction s arbitrary: cp rule: scalar_values.induct)
  case 1
  then show ?case by simp
next
  case (2 c)
  then show ?case using unat_jschar [of c]
    by (auto simp: scalar_ok_def is_high_unat is_low_unat)
next
  case (3 c d cs)
  show ?case
  proof (cases "is_high c \<and> is_low d")
    case True
    have "scalar_ok (0x10000 + (unat c - 0xD800) * 0x400 + (unat d - 0xDC00))"
      using True unfolding scalar_ok_def is_high_unat is_low_unat by arith
    then show ?thesis using True 3 by auto
  next
    case False
    have "scalar_ok (if is_high c \<or> is_low c then 0xFFFD else unat c)"
      using unat_jschar [of c] by (auto simp: scalar_ok_def is_high_unat is_low_unat)
    then show ?thesis using False 3 by auto
  qed
qed

lemma utf16_units_unit:
  "\<not> is_high c \<Longrightarrow> \<not> is_low c \<Longrightarrow> utf16_units (unat c) = [c]"
  using unat_jschar [of c] by (simp add: utf16_units_def)

lemma utf16_units_pair:
  assumes "is_high c" "is_low d"
  shows "utf16_units (0x10000 + (unat c - 0xD800) * 0x400 + (unat d - 0xDC00)) = [c, d]"
proof -
  define x y where "x = unat c - 0xD800" and "y = unat d - 0xDC00"
  have y: "y < 0x400" using assms(2) unfolding y_def is_low_unat by arith
  have hx: "0xD800 + x = unat c" using assms(1) unfolding x_def is_high_unat by arith
  have hy: "0xDC00 + y = unat d" using assms(2) unfolding y_def is_low_unat by arith
  have dv: "(x * 0x400 + y) div 0x400 = x" "(x * 0x400 + y) mod 0x400 = y" using y by simp_all
  have "utf16_units (0x10000 + x * 0x400 + y) =
      [of_nat (0xD800 + (x * 0x400 + y) div 0x400), of_nat (0xDC00 + (x * 0x400 + y) mod 0x400)]"
    by (simp add: utf16_units_def)
  also have "\<dots> = [of_nat (unat c), of_nat (unat d)]" unfolding dv hx hy ..
  finally show ?thesis by (simp add: x_def y_def)
qed

lemma toWellFormed_id: "isWellFormed s \<Longrightarrow> toWellFormed s = s"
  unfolding toWellFormed_def
  by (induction s rule: isWellFormed.induct)
     (auto simp: utf16_units_unit utf16_units_pair split: if_splits)

lemma concat_map_concat:
  "concat (map f (concat xss)) = concat (map (\<lambda>xs. concat (map f xs)) xss)"
  by (induction xss) simp_all

lemma decode_blob_bytes:
  "decode_text (blob_bytes b) = Some (concat (map toWellFormed (parts b)))"
proof -
  have ok: "\<forall>cp\<in>set (concat (map scalar_values (parts b))). scalar_ok cp"
    by (auto dest: scalar_values_ok)
  have "blob_bytes b = concat (map utf8_encode (concat (map scalar_values (parts b))))"
    by (simp add: blob_bytes_def concat_map_concat comp_def)
  then have "utf8_decode (blob_bytes b) = Some (concat (map scalar_values (parts b)))"
    using utf8_decode_encode [OF ok, of "[]"] by simp
  then show ?thesis
    by (simp add: decode_text_def toWellFormed_def [abs_def] concat_map_concat comp_def)
qed

lemma toWellFormed_BOM: "toWellFormed [BOM] = [BOM]"
  by (simp add: toWellFormed_def is_high_def is_low_def BOM_def utf16_units_def)

lemma downloadFile_plain:
  assumes "safeExtension_of ext \<noteq> ascii ''.pdf''" "safeExtension_of ext \<noteq> ascii ''.docx''"
    "safeExtension_of ext \<noteq> ascii ''.doc''"
  shows "downloadFile popup content filename ext =
    Downloaded \<lparr>parts = [[BOM], content],
                blob_type = mimeType_of (safeExtension_of ext) @ ascii '';charset=utf-8''\<rparr>
      (filename @ safeExtension_of ext)"
  using assms by (simp add: downloadFile_def Let_def)

lemma decode_plain_blob:
  "decode_text (blob_bytes \<lparr>parts = [[BOM], content], blob_type = ty\<rparr>) =
     Some (BOM # toWellFormed content)"
  by (simp add: decode_blob_bytes toWellFormed_BOM)

text \<open>
  C4, as stated, fails for a content with an unpaired surrogate: exported as \<open>.txt\<close>, the
  one code unit U+D83D is stored as the bytes of U+FFFD, and the payload decodes to the
  byte-order mark followed by U+FFFD, not by the content.
\<close>

theorem plain_export_surrogate_counterexample:
  "downloadFile False [0xD83D] (ascii ''out'') (ascii ''.txt'') =
     Downloaded \<lparr>parts = [[BOM], [0xD83D]], blob_type = ascii ''text/plain;charset=utf-8''\<rparr>
       (ascii ''out.txt'') \<and>
   blob_bytes \<lparr>parts = [[BOM], [0xD83D]], blob_type = ascii ''text/plain;charset=utf-8''\<rparr> =
     [0xEF, 0xBB, 0xBF, 0xEF, 0xBF, 0xBD] \<and>
   decode_text [0xEF, 0xBB, 0xBF, 0xEF, 0xBF, 0xBD] = Some [BOM, 0xFFFD] \<and>
   tl [BOM, 0xFFFD] \<noteq> [0xD83D :: jschar]"
proof -
  have a: "downloadFile False [0xD83D] (ascii ''out'') (ascii ''.txt'') =
     Downloaded \<lparr>parts = [[BOM], [0xD83D]], blob_type = ascii ''text/plain;charset=utf-8''\<rparr>
       (ascii ''out.txt'')"
    using downloadFile_plain [of "ascii ''.txt''" False "[0xD83D]" "ascii ''out''"]
    by (simp add: safeExtension_literals ext_distinct mimeType_literals) (simp add: ascii_def)
  have b: "blob_bytes \<lparr>parts = [[BOM], [0xD83D]], blob_type = ascii ''text/plain;charset=utf-8''\<rparr> =
     [0xEF, 0xBB, 0xBF, 0xEF, 0xBF, 0xBD]"
    by (simp add: blob_bytes_def is_high_def is_low_def BOM_def utf8_encode_def)
  have c: "decode_text [0xEF, 0xBB, 0xBF, 0xEF, 0xBF, 0xBD] = Some [BOM, 0xFFFD]"
    by (simp add: decode_text_def is_cont_def utf16_units_def BOM_def)
  show ?thesis using a b c by simp
qed

text \<open>
  C4, as amended. For every extension that takes the plain branch (in particular every
  export extension other than \<open>.pdf\<close> and \<open>.docx\<close>) the blob parts are the byte-order mark
  and the content itself, and the bytes of the blob decode to the mark followed by the
  content with every unpaired surrogate replaced by U+FFFD. For a well-formed content
  (no unpaired surrogate) that is the content, unit for unit. The content
  \<open>Line1\n\nLine2\<close> exported as \<open>.txt\<close> is the blob of type \<open>text/plain;charset=utf-8\<close>
  with the bytes EF BB BF and then one byte for each character, and decodes to itself
  after the mark.
\<close>

theorem plain_export_roundtrip:
  "(safeExtension_of ext \<noteq> ascii ''.pdf'' \<and> safeExtension_of ext \<noteq> ascii ''.docx'' \<and>
    safeExtension_of ext \<noteq> ascii ''.doc'' \<longrightarrow>
      downloadFile popup content filename ext =
        Downloaded \<lparr>parts = [[BOM], content],
                    blob_type = mimeType_of (safeExtension_of ext) @ ascii '';charset=utf-8''\<rparr>
          (filename @ safeExtension_of ext) \<and>
      decode_text (blob_bytes \<lparr>parts = [[BOM], content],
                    blob_type = mimeType_of (safeExtension_of ext) @ ascii '';charset=utf-8''\<rparr>) =
        Some (BOM # toWellFormed content)) \<and>
   (isWellFormed content \<longrightarrow> toWellFormed content = content) \<and>
   (\<forall>e\<in>set EXPORT_EXTENSIONS. e \<noteq> ascii ''.pdf'' \<and> e \<noteq> ascii ''.docx'' \<and> isWellFormed content \<longrightarrow>
      (\<exists>b. downloadFile popup content filename e = Downloaded b (filename @ e) \<and>
           parts b = [[BOM], content] \<and>
           decode_text (blob_bytes b) = Some (BOM # content))) \<and>
   downloadFile popup (ascii ''Line1'' @ [NL, NL] @ ascii ''Line2'') filename (ascii ''.txt'') =
     Downloaded \<lparr>parts = [[BOM], ascii ''Line1'' @ [NL, NL] @ ascii ''Line2''],
                 blob_type = ascii ''text/plain;charset=utf-8''\<rparr>
       (filename @ ascii ''.txt'') \<and>
   blob_bytes \<lparr>parts = [[BOM], ascii ''Line1'' @ [NL, NL] @ ascii ''Line2''],
               blob_type = ascii ''text/plain;charset=utf-8''\<rparr> =
     [0xEF, 0xBB, 0xBF, 0x4C, 0x69, 0x6E, 0x65, 0x31, 0x0A, 0x0A, 0x4C, 0x69, 0x6E, 0x65, 0x32] \<and>
   decode_text
     [0xEF, 0xBB, 0xBF, 0x4C, 0x69, 0x6E, 0x65, 0x31, 0x0A, 0x0A, 0x4C, 0x69, 0x6E, 0x65, 0x32] =
     Some (BOM # ascii ''Line1'' @ [NL, NL] @ ascii ''Line2'')"
proof -
  have g: "safeExtension_of x \<noteq> ascii ''.pdf'' \<and> safeExtension_of x \<noteq> ascii ''.docx'' \<and>
    safeExtension_of x \<noteq> ascii ''.doc'' \<longrightarrow>
      downloadFile popup c filename x =
        Downloaded \<lparr>parts = [[BOM], c],
                    blob_type = mimeType_of (safeExtension_of x) @ ascii '';charset=utf-8''\<rparr>
          (filename @ safeExtension_of x) \<and>
      decode_text (blob_bytes \<lparr>parts = [[BOM], c],
                    blob_type = mimeType_of (safeExtension_of x) @ ascii '';charset=utf-8''\<rparr>) =
        Some (BOM # toWellFormed c)" for x c
    using downloadFile_plain [of x popup c filename] by (simp add: decode_plain_blob)
  have w: "isWellFormed content \<longrightarrow> toWellFormed content = content"
    by (simp add: toWellFormed_id)
  have s: "\<forall>e\<in>set EXPORT_EXTENSIONS. e \<noteq> ascii ''.pdf'' \<and> e \<noteq> ascii ''.docx'' \<longrightarrow>
      safeExtension_of e = e \<and> e \<noteq> ascii ''.doc''"
    by (simp add: EXPORT_EXTENSIONS_def safeExtension_literals) (simp add: ascii_def)
  have all: "\<forall>e\<in>set EXPORT_EXTENSIONS. e \<noteq> ascii ''.pdf'' \<and> e \<noteq> ascii ''.docx'' \<and> isWellFormed content \<longrightarrow>
      (\<exists>b. downloadFile popup content filename e = Downloaded b (filename @ e) \<and>
           parts b = [[BOM], content] \<and>
           decode_text (blob_bytes b) = Some (BOM # content))"
  proof (intro ballI impI)
    fix e assume e: "e \<in> set EXPORT_EXTENSIONS"
      "e \<noteq> ascii ''.pdf'' \<and> e \<noteq> ascii ''.docx'' \<and> isWellFormed content"
    with s have se: "safeExtension_of e = e" "e \<noteq> ascii ''.doc''" by auto
    have wf: "toWellFormed content = content" using e(2) w by blast
    from g [of e content] e(2) se wf
    show "\<exists>b. downloadFile popup content filename e = Downloaded b (filename @ e) \<and>
           parts b = [[BOM], content] \<and>
           decode_text (blob_bytes b) = Some (BOM # content)"
      by auto
  qed
  have ex: "downloadFile popup (ascii ''Line1'' @ [NL, NL] @ ascii ''Line2'') filename (ascii ''.txt'') =
     Downloaded \<lparr>parts = [[BOM], ascii ''Line1'' @ [NL, NL] @ ascii ''Line2''],
                 blob_type = ascii ''text/plain;charset=utf-8''\<rparr>
       (filename @ ascii ''.txt'')"
    using g [of "ascii ''.txt''" "ascii ''Line1'' @ [NL, NL] @ ascii ''Line2''"]
    by (simp add: safeExtension_literals ext_distinct mimeType_literals) (simp add: ascii_def)
  have by1: "blob_bytes \<lparr>parts = [[BOM], ascii ''Line1'' @ [NL, NL] @ ascii ''Line2''],
               blob_type = ascii ''text/plain;charset=utf-8''\<rparr> =
     [0xEF, 0xBB, 0xBF, 0x4C, 0x69, 0x6E, 0x65, 0x31, 0x0A, 0x0A, 0x4C, 0x69, 0x6E, 0x65, 0x32]"
    by (simp add: blob_bytes_def is_high_def is_low_def BOM_def NL_def ascii_def utf8_encode_def)
  have by2: "decode_text
     [0xEF, 0xBB, 0xBF, 0x4C, 0x69, 0x6E, 0x65, 0x31, 0x0A, 0x0A, 0x4C, 0x69, 0x6E, 0x65, 0x32] =
     Some (BOM # ascii ''Line1'' @ [NL, NL] @ ascii ''Line2'')"
    by (simp add: decode_text_def is_cont_def utf16_units_def BOM_def NL_def ascii_def)
  show ?thesis using g [of ext content] w all ex by1 by2 by blast
qed

theorem plain_export_roundtrip_witness:
  "safeExtension_of (ascii ''TXT'') = ascii ''.txt'' \<and>
   isWellFormed [0xD83D, 0xDE00, 0x41, 0x0633] \<and>
   downloadFile False [0xD83D, 0xDE00, 0x41, 0x0633] (ascii ''out'') (ascii ''TXT'') =
     Downloaded \<lparr>parts = [[BOM], [0xD83D, 0xDE00, 0x41, 0x0633]],
                 blob_type = ascii ''text/plain;charset=utf-8''\<rparr> (ascii ''out.txt'') \<and>
   blob_bytes \<lparr>parts = [[BOM], [0xD83D, 0xDE00, 0x41, 0x0633]],
               blob_type = ascii ''text/plain;charset=utf-8''\<rparr> =
     [0xEF, 0xBB, 0xBF, 0xF0, 0x9F, 0x98, 0x80, 0x41, 0xD8, 0xB3] \<and>
   decode_text (blob_bytes \<lparr>parts = [[BOM], [0xD83D, 0xDE00, 0x41, 0x0633]],
                 blob_type = ascii ''text/plain;charset=utf-8''\<rparr>) =
     Some (BOM # [0xD83D, 0xDE00, 0x41, 0x0633])"
proof -
  let ?c = "[0xD83D, 0xDE00, 0x41, 0x0633] :: jsstring"
  have e: "safeExtension_of (ascii ''TXT'') = ascii ''.txt''"
    by (simp add: safeExtension_of_def startsWith_def toLowerCase_def lower_unit_def ascii_def DOT_def)
  have wf: "isWellFormed ?c" by (simp add: is_high_def is_low_def)
  have m1: "mimeType_of (ascii ''.txt'') @ ascii '';charset=utf-8'' = ascii ''text/plain;charset=utf-8''"
    by (simp add: mimeType_literals) (simp add: ascii_def)
  have m2: "ascii ''out'' @ ascii ''.txt'' = ascii ''out.txt''"
    by (simp add: ascii_def)
  note m = m1 m2
  have n: "ascii ''.txt'' \<noteq> ascii ''.pdf'' \<and> ascii ''.txt'' \<noteq> ascii ''.docx'' \<and>
    ascii ''.txt'' \<noteq> ascii ''.doc''" by (simp add: ext_distinct)
  have r: "downloadFile False ?c (ascii ''out'') (ascii ''TXT'') =
        Downloaded \<lparr>parts = [[BOM], ?c], blob_type = ascii ''text/plain;charset=utf-8''\<rparr>
          (ascii ''out.txt'') \<and>
      decode_text (blob_bytes \<lparr>parts = [[BOM], ?c], blob_type = ascii ''text/plain;charset=utf-8''\<rparr>) =
        Some (BOM # toWellFormed ?c)"
    using plain_export_roundtrip [of "ascii ''TXT''" False ?c "ascii ''out''"] n
    unfolding e m by blast
  have t: "toWellFormed ?c = ?c"
    using plain_export_roundtrip [of "ascii ''TXT''" False ?c "ascii ''out''"] wf by blast
  have b: "blob_bytes \<lparr>parts = [[BOM], ?c], blob_type = ascii ''text/plain;charset=utf-8''\<rparr> =
     [0xEF, 0xBB, 0xBF, 0xF0, 0x9F, 0x98, 0x80, 0x41, 0xD8, 0xB3]"
    by (simp add: blob_bytes_def is_high_def is_low_def BOM_def utf8_encode_def)
  show ?thesis using e wf r b unfolding t by simp
qed




text \<open>
  C8, as stated, fails: the supported export extensions \<open>.srt\<close> and \<open>.vtt\<close> are not in the
  MIME table and get the fallback type \<open>text/plain\<close>, the type of \<open>.txt\<close>; and a print
  export whose popup is blocked alerts and exports nothing.
\<close>

theorem mime_mapping_counterexample:
  "ascii ''.srt'' \<in> set EXPORT_EXTENSIONS \<and> ascii ''.vtt'' \<in> set EXPORT_EXTENSIONS \<and>
   ascii ''.txt'' \<in> set EXPORT_EXTENSIONS \<and>
   ascii ''.srt'' \<noteq> ascii ''.vtt'' \<and> ascii ''.srt'' \<noteq> ascii ''.txt'' \<and>
   mimeType_of (ascii ''.srt'') = ascii ''text/plain'' \<and>
   mimeType_of (ascii ''.vtt'') = ascii ''text/plain'' \<and>
   mimeType_of (ascii ''.txt'') = ascii ''text/plain'' \<and>
   downloadFile False (ascii ''text'') (ascii ''translation'') (ascii ''.pdf'') = PopupBlocked"
proof -
  have "ascii ''.srt'' \<in> set EXPORT_EXTENSIONS" "ascii ''.vtt'' \<in> set EXPORT_EXTENSIONS"
    "ascii ''.txt'' \<in> set EXPORT_EXTENSIONS"
    by (simp_all add: EXPORT_EXTENSIONS_def)
  moreover have "ascii ''.srt'' \<noteq> ascii ''.vtt''" "ascii ''.srt'' \<noteq> ascii ''.txt''"
    by (simp_all add: ascii_def)
  moreover have "downloadFile False (ascii ''text'') (ascii ''translation'') (ascii ''.pdf'') = PopupBlocked"
    by (simp add: downloadFile_def safeExtension_literals)
  ultimately show ?thesis by (simp add: mimeType_literals)
qed

text \<open>
  C8, as amended. \<open>downloadFile\<close> has a result for every input: for an extension other
  than \<open>.pdf\<close> it downloads a blob under the file name with the normalised extension; for
  \<open>.pdf\<close> it writes the print page, or alerts when the popup is blocked. In the plain
  branch the blob type is the MIME type of the extension followed by
  \<open>;charset=utf-8\<close>, where \<open>.json\<close>, \<open>.html\<close>, \<open>.csv\<close>, \<open>.xml\<close> and \<open>.md\<close> have a type of their
  own and every other extension has \<open>text/plain\<close>.
\<close>

theorem export_branches_and_mime:
  "(safeExtension_of ext \<noteq> ascii ''.pdf'' \<longrightarrow>
      (\<exists>b. downloadFile popup content filename ext = Downloaded b (filename @ safeExtension_of ext))) \<and>
   (safeExtension_of ext = ascii ''.pdf'' \<longrightarrow>
      downloadFile False content filename ext = PopupBlocked \<and>
      (\<exists>page. downloadFile True content filename ext = Printed page)) \<and>
   (safeExtension_of ext \<noteq> ascii ''.pdf'' \<and> safeExtension_of ext \<noteq> ascii ''.docx'' \<and>
    safeExtension_of ext \<noteq> ascii ''.doc'' \<longrightarrow>
      (\<exists>b. downloadFile popup content filename ext = Downloaded b (filename @ safeExtension_of ext) \<and>
           blob_type b = mimeType_of (safeExtension_of ext) @ ascii '';charset=utf-8'')) \<and>
   mimeType_of (ascii ''.json'') = ascii ''application/json'' \<and>
   mimeType_of (ascii ''.html'') = ascii ''text/html'' \<and>
   mimeType_of (ascii ''.csv'') = ascii ''text/csv'' \<and>
   mimeType_of (ascii ''.xml'') = ascii ''text/xml'' \<and>
   mimeType_of (ascii ''.md'') = ascii ''text/markdown'' \<and>
   (e \<noteq> ascii ''.json'' \<and> e \<noteq> ascii ''.html'' \<and> e \<noteq> ascii ''.csv'' \<and> e \<noteq> ascii ''.xml'' \<and>
    e \<noteq> ascii ''.md'' \<longrightarrow> mimeType_of e = ascii ''text/plain'')"
proof -
  have a: "safeExtension_of ext \<noteq> ascii ''.pdf'' \<longrightarrow>
      (\<exists>b. downloadFile popup content filename ext = Downloaded b (filename @ safeExtension_of ext))"
    by (auto simp add: downloadFile_def Let_def)
  have b: "safeExtension_of ext = ascii ''.pdf'' \<longrightarrow>
      downloadFile False content filename ext = PopupBlocked \<and>
      (\<exists>page. downloadFile True content filename ext = Printed page)"
    by (simp add: downloadFile_def Let_def)
  have c: "safeExtension_of ext \<noteq> ascii ''.pdf'' \<and> safeExtension_of ext \<noteq> ascii ''.docx'' \<and>
    safeExtension_of ext \<noteq> ascii ''.doc'' \<longrightarrow>
      (\<exists>b. downloadFile popup content filename ext = Downloaded b (filename @ safeExtension_of ext) \<and>
           blob_type b = mimeType_of (safeExtension_of ext) @ ascii '';charset=utf-8'')"
    by (auto simp add: downloadFile_def Let_def)
  have d: "e \<noteq> ascii ''.json'' \<and> e \<noteq> ascii ''.html'' \<and> e \<noteq> ascii ''.csv'' \<and> e \<noteq> ascii ''.xml'' \<and>
    e \<noteq> ascii ''.md'' \<longrightarrow> mimeType_of e = ascii ''text/plain''"
    by (simp add: mimeType_of_def)
  show ?thesis using a b c d by (simp add: mimeType_literals)
qed

theorem export_branches_and_mime_witness:
  "mimeType_of (ascii ''.vtt'') = ascii ''text/plain'' \<and>
   downloadFile False (ascii ''x'') (ascii ''out'') (ascii ''.PDF'') = PopupBlocked \<and>
   downloadFile True (ascii ''x'') (ascii ''out'') (ascii ''.vtt'') =
     Downloaded \<lparr>parts = [[BOM], ascii ''x''], blob_type = ascii ''text/plain;charset=utf-8''\<rparr>
       (ascii ''out.vtt'')"
proof -
  have e: "safeExtension_of (ascii ''.PDF'') = ascii ''.pdf''"
    by (simp add: safeExtension_of_def startsWith_def toLowerCase_def lower_unit_def ascii_def DOT_def)
  have v: "ascii ''.vtt'' \<noteq> ascii ''.json''" "ascii ''.vtt'' \<noteq> ascii ''.html''"
    "ascii ''.vtt'' \<noteq> ascii ''.csv''" "ascii ''.vtt'' \<noteq> ascii ''.xml''" "ascii ''.vtt'' \<noteq> ascii ''.md''"
    by (simp_all add: ascii_def)
  have m: "mimeType_of (ascii ''.vtt'') = ascii ''text/plain''"
    using export_branches_and_mime [of "ascii ''.PDF''" False "ascii ''x''" "ascii ''out''" "ascii ''.vtt''"] v
    by blast
  have p: "downloadFile False (ascii ''x'') (ascii ''out'') (ascii ''.PDF'') = PopupBlocked"
    using export_branches_and_mime [of "ascii ''.PDF''" False "ascii ''x''" "ascii ''out''" "ascii ''.vtt''"] e
    by blast
  have d: "downloadFile True (ascii ''x'') (ascii ''out'') (ascii ''.vtt'') =
     Downloaded \<lparr>parts = [[BOM], ascii ''x''], blob_type = ascii ''text/plain;charset=utf-8''\<rparr>
       (ascii ''out.vtt'')"
    by (simp add: downloadFile_def safeExtension_literals m Let_def) (simp add: ascii_def)
  show ?thesis using m p d by simp
qed

end
